theory Spec2Isabelle
  imports Complex_Main "HOL-Library.List_Lexorder" "HOL-Library.Char_ord"
begin

section \<open>Strings and the regular expressions of the parser\<close>

text \<open>
  A JavaScript string is a sequence of code units. Cell texts are modelled as
  \<^typ>\<open>string\<close>, one \<^typ>\<open>char\<close> per code unit in the range 0..255; every
  pattern of \<open>parser.ts\<close> that is modelled here distinguishes ASCII characters only
  (and the no-break space among the white space), so nothing is lost for the cells the
  patterns accept.
\<close>

type_synonym charclass = "char list"

definition cls_digit :: charclass where
  "cls_digit = ''0123456789''"

definition cls_upper :: charclass where
  "cls_upper = ''ABCDEFGHIJKLMNOPQRSTUVWXYZ''"

definition cls_lower :: charclass where
  "cls_lower = ''abcdefghijklmnopqrstuvwxyz''"

text \<open>\<open>[A-Z0-9]\<close>, and the same class under the \<open>i\<close> flag.\<close>

definition cls_alnum :: charclass where
  "cls_alnum = cls_upper @ cls_digit"

definition cls_alnum_i :: charclass where
  "cls_alnum_i = cls_upper @ cls_lower @ cls_digit"

text \<open>\<open>\s\<close> (and what \<open>trim\<close> strips): tab, LF, VT, FF, CR, space, no-break space.\<close>

definition cls_space :: charclass where
  "cls_space = [CHR 0x09, CHR 0x0A, CHR 0x0B, CHR 0x0C, CHR 0x0D, CHR '' '', CHR 0xA0]"

text \<open>\<open>[\.\/-]\<close> and \<open>[-~]\<close> of the date-range pattern.\<close>

definition cls_datesep :: charclass where
  "cls_datesep = ''./-''"

definition cls_rangesep :: charclass where
  "cls_rangesep = ''-~''"

text \<open>\<open>String.prototype.toLowerCase\<close>, on the letters A to Z. The parser only compares
  the lowered text with ASCII words (\<open>oem\<close>, \<open>per car\<close>, the header labels), so the
  mapping of other letters does not change a test.\<close>

definition toLowerCase_char :: "char \<Rightarrow> char" where
  "toLowerCase_char c = (case map_of (zip cls_upper cls_lower) c of None \<Rightarrow> c | Some l \<Rightarrow> l)"

definition toLowerCase :: "string \<Rightarrow> string" where
  "toLowerCase s = map toLowerCase_char s"

fun startsWith :: "string \<Rightarrow> string \<Rightarrow> bool" where
  "startsWith s [] = True"
| "startsWith [] (p # ps) = False"
| "startsWith (c # s) (p # ps) = (c = p \<and> startsWith s ps)"

text \<open>\<open>s.includes(sub)\<close>: \<open>sub\<close> occurs in \<open>s\<close> at some position.\<close>

fun includes_str :: "string \<Rightarrow> string \<Rightarrow> bool" where
  "includes_str [] sub = (sub = [])"
| "includes_str (c # s) sub = (startsWith (c # s) sub \<or> includes_str s sub)"

text \<open>
  The regular expressions of the parser repeat character classes only, so a pattern is a
  greedy bounded repetition of a class (\<open>Rep cs m (Some n)\<close> is \<open>[cs]{m,n}\<close>,
  \<open>Rep cs m None\<close> is \<open>[cs]{m,}\<close>), a concatenation or an alternation.
  \<open>rmatch r s\<close> lists what is left of \<open>s\<close> after each way \<open>r\<close> matches a prefix
  of it, in the order a backtracking matcher tries them (longest repetition first, left
  alternative first).
\<close>

datatype re = Rep charclass nat "nat option" | Cat re re | Alt re re

definition rep_rem :: "charclass \<Rightarrow> nat \<Rightarrow> nat option \<Rightarrow> string \<Rightarrow> string list" where
  "rep_rem cs m n s =
     (let k = length (takeWhile (\<lambda>c. c \<in> set cs) s);
          hi = (case n of None \<Rightarrow> k | Some b \<Rightarrow> min b k)
      in map (\<lambda>j. drop j s) (rev [m..<Suc hi]))"

fun rmatch :: "re \<Rightarrow> string \<Rightarrow> string list" where
  "rmatch (Rep cs m n) s = rep_rem cs m n s"
| "rmatch (Cat a b) s = concat (map (rmatch b) (rmatch a s))"
| "rmatch (Alt a b) s = rmatch a s @ rmatch b s"

text \<open>\<open>/^r$/.test(s)\<close>: some way of matching consumes all of \<open>s\<close>.\<close>

definition re_test :: "re \<Rightarrow> string \<Rightarrow> bool" where
  "re_test r s = ([] \<in> set (rmatch r s))"

text \<open>
  \<open>s.match(/r/)\<close> without anchors: the first match at the leftmost position where
  \<open>r\<close> matches; the result is the matched text (\<open>match[0]\<close>).
\<close>

fun re_search :: "re \<Rightarrow> string \<Rightarrow> string option" where
  "re_search r [] = (case rmatch r [] of [] \<Rightarrow> None | t # ts \<Rightarrow> Some [])"
| "re_search r (c # s) =
     (case rmatch r (c # s) of
        [] \<Rightarrow> re_search r s
      | t # ts \<Rightarrow> Some (take (Suc (length s) - length t) (c # s)))"

text \<open>\<open>/^[A-Z]{1,3}\d{5,}[A-Z0-9]*$|^[A-Z]{2}[A-Z0-9]{4,}$/\<close>\<close>

definition oemPattern :: re where
  "oemPattern =
     Alt (Cat (Rep cls_upper 1 (Some 3)) (Cat (Rep cls_digit 5 None) (Rep cls_alnum 0 None)))
         (Cat (Rep cls_upper 2 (Some 2)) (Rep cls_alnum 4 None))"

text \<open>\<open>/\d{4}[\.\/-]\d{1,2}[\.\/-]?\d{0,2}\s*[-~]\s*\d{4}[\.\/-]\d{1,2}/\<close>\<close>

definition dateRangePattern :: re where
  "dateRangePattern =
     Cat (Rep cls_digit 4 (Some 4))
    (Cat (Rep cls_datesep 1 (Some 1))
    (Cat (Rep cls_digit 1 (Some 2))
    (Cat (Rep cls_datesep 0 (Some 1))
    (Cat (Rep cls_digit 0 (Some 2))
    (Cat (Rep cls_space 0 None)
    (Cat (Rep cls_rangesep 1 (Some 1))
    (Cat (Rep cls_space 0 None)
    (Cat (Rep cls_digit 4 (Some 4))
    (Cat (Rep cls_datesep 1 (Some 1))
         (Rep cls_digit 1 (Some 2)))))))))))"

text \<open>\<open>/^\d{5}[A-Z0-9]{0,2}$/i\<close> and \<open>/^\d{4}[A-Z0-9]?$/i\<close>\<close>

definition pncPattern5 :: re where
  "pncPattern5 = Cat (Rep cls_digit 5 (Some 5)) (Rep cls_alnum_i 0 (Some 2))"

definition pncPattern4 :: re where
  "pncPattern4 = Cat (Rep cls_digit 4 (Some 4)) (Rep cls_alnum_i 0 (Some 1))"

section \<open>parseInt and the field clean-up helpers\<close>

definition digit_val :: "char \<Rightarrow> int option" where
  "digit_val c =
     map_of (zip ''0123456789abcdefABCDEF''
                 [0, 1, 2, 3, 4, 5, 6, 7, 8, 9, 10, 11, 12, 13, 14, 15, 10, 11, 12, 13, 14, 15]) c"

definition is_digit_in :: "int \<Rightarrow> char \<Rightarrow> bool" where
  "is_digit_in radix c = (case digit_val c of None \<Rightarrow> False | Some d \<Rightarrow> d < radix)"

definition digits_value :: "int \<Rightarrow> string \<Rightarrow> int" where
  "digits_value radix ds =
     foldl (\<lambda>acc c. acc * radix + (case digit_val c of None \<Rightarrow> 0 | Some d \<Rightarrow> d)) 0 ds"

text \<open>
  The values of type \<open>number\<close> that \<open>parseInt\<close> can return: a double whose value is an
  integer (\<open>Integral 0\<close> stands for both zeros, which are both falsy), the two
  infinities, and NaN.
\<close>

datatype number = Integral int | PosInfinity | NegInfinity | NaN

text \<open>The number of binary digits of a positive integer.\<close>

function bit_length :: "int \<Rightarrow> nat" where
  "bit_length n = (if n \<le> 0 then 0 else Suc (bit_length (n div 2)))"
  by pat_completeness auto
termination
  by (relation "measure nat") auto

declare bit_length.simps [simp del]

text \<open>
  The double nearest to an integer \<open>n \<ge> 0\<close> (round to nearest, ties to even, as the
  Number value of a mathematical value is defined): an integer of up to 53 binary
  digits is a double; a longer one keeps its leading 53 digits \<open>q\<close>, rounded by the rest
  \<open>r\<close>. \<open>None\<close> is the overflow to infinity, when the rounded value reaches
  \<open>2 ^ 1024\<close>.
\<close>

definition nearest_double :: "int \<Rightarrow> int option" where
  "nearest_double n =
     (let e = bit_length n in
      if e \<le> 53 then Some n
      else (let ulp = 2 ^ (e - 53);
                q = n div ulp;
                r = n mod ulp;
                q' = (if ulp < 2 * r \<or> (2 * r = ulp \<and> odd q) then q + 1 else q)
            in if 2 ^ 1024 \<le> q' * ulp then None else Some (q' * ulp)))"

text \<open>
  \<open>parseInt(str)\<close> with no radix: leading white space is skipped, a sign is read, a
  \<open>0x\<close> prefix selects radix 16, and the longest run of digits is the value, rounded
  to a double; no digit at all gives NaN. The value is that of all the digits of the
  run (the standard lets an implementation read the decimal digits after the 20th as
  zeros; a result with all digits is always allowed).
\<close>

definition parseInt :: "string \<Rightarrow> number" where
  "parseInt str =
     (let s1 = dropWhile (\<lambda>c. c \<in> set cls_space) str;
          neg = startsWith s1 ''-'';
          s2 = (if startsWith s1 ''-'' \<or> startsWith s1 ''+'' then tl s1 else s1);
          hex = (startsWith s2 ''0x'' \<or> startsWith s2 ''0X'');
          radix = (if hex then 16 else 10);
          s3 = (if hex then drop 2 s2 else s2);
          ds = takeWhile (is_digit_in radix) s3
      in if ds = [] then NaN
         else (case nearest_double (digits_value radix ds) of
                 None \<Rightarrow> if neg then NegInfinity else PosInfinity
               | Some m \<Rightarrow> Integral ((if neg then - 1 else 1) * m)))"

text \<open>\<open>allCells[k] || null\<close>: out of range gives undefined, the empty text is falsy.\<close>

definition cell_or_null :: "string list \<Rightarrow> nat \<Rightarrow> string option" where
  "cell_or_null allCells k =
     (if k < length allCells \<and> allCells ! k \<noteq> [] then Some (allCells ! k) else None)"

text \<open>The header words of \<open>/^(no|pnc|oem|required|name|spec|notes|color)$/i\<close>.\<close>

definition header_words :: "string list" where
  "header_words = [''no'', ''pnc'', ''oem'', ''required'', ''name'', ''spec'', ''notes'', ''color'']"

definition cleanField :: "string option \<Rightarrow> string option" where
  "cleanField val =
     (case val of
        None \<Rightarrow> None
      | Some v \<Rightarrow>
          if v = [] then None
          else if toLowerCase v \<in> set header_words then None
          else if includes_str (toLowerCase v) ''per car'' then None
          else Some v)"

definition cleanPnc :: "string option \<Rightarrow> string option" where
  "cleanPnc val =
     (case val of
        None \<Rightarrow> None
      | Some v \<Rightarrow>
          if v = [] then None
          else if re_test pncPattern5 v then Some v
          else if re_test pncPattern4 v then Some v
          else None)"

text \<open>\<open>replace(/,(?!\s)/g, ", ")\<close>\<close>

fun comma_space :: "string \<Rightarrow> string" where
  "comma_space [] = []"
| "comma_space (c # s) =
     (if c = CHR '','' \<and> (case s of [] \<Rightarrow> True | d # t \<Rightarrow> d \<notin> set cls_space)
      then '', '' @ comma_space s
      else c # comma_space s)"

text \<open>\<open>replace(/\s{2,}/g, " ")\<close>; \<open>in_run\<close> says that the previous character was white
  space of a run already replaced.\<close>

fun collapse_spaces :: "bool \<Rightarrow> string \<Rightarrow> string" where
  "collapse_spaces in_run [] = []"
| "collapse_spaces in_run (c # s) =
     (if c \<in> set cls_space then
        (if in_run then collapse_spaces True s
         else (case s of
                 [] \<Rightarrow> [c]
               | d # t \<Rightarrow> if d \<in> set cls_space then CHR '' '' # collapse_spaces True s
                          else c # collapse_spaces False s))
      else c # collapse_spaces False s)"

definition trim :: "string \<Rightarrow> string" where
  "trim s = rev (dropWhile (\<lambda>c. c \<in> set cls_space) (rev (dropWhile (\<lambda>c. c \<in> set cls_space) s)))"

definition cleanDescription :: "string option \<Rightarrow> string option" where
  "cleanDescription description =
     (case description of
        None \<Rightarrow> None
      | Some d \<Rightarrow>
          if d = [] then None
          else (let cleaned = trim (collapse_spaces False (comma_space d))
                in if cleaned = [] then None else Some cleaned))"

section \<open>parsePartsPage\<close>

text \<open>The interface \<open>ParsedPart\<close> of \<open>types.ts\<close>; its field \<open>notes\<close> is \<open>notes_text\<close> here.\<close>

record ParsedPart =
  partNumber :: string
  pnc :: "string option"
  description :: "string option"
  refNumber :: "string option"
  quantity :: "number option"
  spec :: "string option"
  notes_text :: "string option"
  color :: "string option"
  modelDateRange :: "string option"

text \<open>
  The inner loop of \<open>parsePartsPage\<close> (lines 482-499): \<open>j\<close> runs from \<open>i + 1\<close> while
  \<open>j < Math.min(i + 16, allCells.length)\<close>; an empty cell is skipped, a cell with a
  date range ends the loop with that range, and past \<open>i + 6\<close> a cell of the OEM shape
  without "oem" in it ends the loop with nothing.
\<close>

function scanDateRange :: "string list \<Rightarrow> nat \<Rightarrow> nat \<Rightarrow> string option" where
  "scanDateRange allCells i j =
     (if j < min (i + 16) (length allCells) then
        (if allCells ! j = [] then scanDateRange allCells i (Suc j)
         else (case re_search dateRangePattern (allCells ! j) of
                 Some dateMatch \<Rightarrow> Some dateMatch
               | None \<Rightarrow>
                   if j > i + 6 \<and> re_test oemPattern (allCells ! j)
                        \<and> \<not> includes_str (toLowerCase (allCells ! j)) ''oem''
                   then None
                   else scanDateRange allCells i (Suc j)))
      else None)"
  by pat_completeness auto
termination
  by (relation "measure (\<lambda>(allCells, i, j). min (i + 16) (length allCells) - j)") auto

declare scanDateRange.simps [simp del]

text \<open>The two tests at the head of the outer loop's body (lines 459 and 462): the cell has
  the OEM shape and is not header text.\<close>

definition is_header_text :: "string \<Rightarrow> bool" where
  "is_header_text cell =
     (includes_str (toLowerCase cell) ''oem'' \<or> includes_str (toLowerCase cell) ''part number'')"

definition is_anchor :: "string \<Rightarrow> bool" where
  "is_anchor cell = (re_test oemPattern cell \<and> \<not> is_header_text cell)"

text \<open>\<open>allCells[i + 1] ? parseInt(allCells[i + 1]) || null : null\<close>: NaN and the zeros
  are falsy, every other number is kept.\<close>

definition quantity_at :: "string list \<Rightarrow> nat \<Rightarrow> number option" where
  "quantity_at allCells i =
     (case cell_or_null allCells (i + 1) of
        None \<Rightarrow> None
      | Some c \<Rightarrow> (case parseInt c of
                     NaN \<Rightarrow> None
                   | Integral n \<Rightarrow> if n = 0 then None else Some (Integral n)
                   | PosInfinity \<Rightarrow> Some PosInfinity
                   | NegInfinity \<Rightarrow> Some NegInfinity))"

text \<open>One pass of the outer loop's body at index \<open>i < allCells.length\<close>: \<open>None\<close> is a
  \<open>continue\<close>, \<open>Some part\<close> is the record pushed.\<close>

definition part_at :: "string list \<Rightarrow> nat \<Rightarrow> ParsedPart option" where
  "part_at allCells i =
     (let cell = allCells ! i in
      if \<not> re_test oemPattern cell then None
      else if is_header_text cell then None
      else if length cell < 5 then None
      else Some \<lparr>
        partNumber = cell,
        pnc = cleanPnc (if i \<ge> 1 then cell_or_null allCells (i - 1) else None),
        description = cleanDescription (cleanField (cell_or_null allCells (i + 2))),
        refNumber = cleanField (if i \<ge> 2 then cell_or_null allCells (i - 2) else None),
        quantity = quantity_at allCells i,
        spec = cleanField (cell_or_null allCells (i + 3)),
        notes_text = cleanField (cell_or_null allCells (i + 4)),
        color = cleanField (cell_or_null allCells (i + 5)),
        modelDateRange = scanDateRange allCells i (i + 1) \<rparr>)"

function parts_loop :: "string list \<Rightarrow> nat \<Rightarrow> ParsedPart list \<Rightarrow> ParsedPart list" where
  "parts_loop allCells i parts =
     (if i < length allCells then
        (case part_at allCells i of
           None \<Rightarrow> parts_loop allCells (Suc i) parts
         | Some part \<Rightarrow> parts_loop allCells (Suc i) (parts @ [part]))
      else parts)"
  by pat_completeness auto
termination
  by (relation "measure (\<lambda>(allCells, i, parts). length allCells - i)") auto

declare parts_loop.simps [simp del]

text \<open>
  \<open>parsePartsPage\<close>, from the flat cell sequence on: the argument is the trimmed text of
  every \<open>td\<close> of the first \<open>table.top_cars\<close> in document order, \<open>None\<close> when the page
  has no such table; the result is the \<open>parts\<close> array.
\<close>

definition parsePartsPage :: "string list option \<Rightarrow> ParsedPart list" where
  "parsePartsPage table =
     (case table of None \<Rightarrow> [] | Some allCells \<Rightarrow> parts_loop allCells 0 [])"

text \<open>The column labels of the parts table, as the comment above \<open>parsePartsPage\<close>
  lists them.\<close>

definition table_columns :: "string list" where
  "table_columns = [''No'', ''PNC#'', ''OEM part number'', ''Required per car'', ''Name'',
                    ''Spec'', ''Notes'', ''Color'', ''model_date_range'', ''Price'']"

text \<open>The cell sequence of the specification's example, and the record it names.\<close>

definition example_cells :: "string list" where
  "example_cells =
     [''04403'', ''02878C'', ''MD123456'', ''2'', ''Bolt, Flange'', ''M8'', '''', ''Black'']"

definition example_part :: ParsedPart where
  "example_part = \<lparr>partNumber = ''MD123456'', pnc = Some ''02878C'',
     description = Some ''Bolt, Flange'', refNumber = Some ''04403'', quantity = Some (Integral 2),
     spec = Some ''M8'', notes_text = None, color = Some ''Black'', modelDateRange = None\<rparr>"

section \<open>Facts about the patterns\<close>

text \<open>Two measures of a pattern, for the proofs: the least number of characters a match
  consumes, and the characters a match can consume.\<close>

fun minlen :: "re \<Rightarrow> nat" where
  "minlen (Rep cs m n) = m"
| "minlen (Cat a b) = minlen a + minlen b"
| "minlen (Alt a b) = min (minlen a) (minlen b)"

fun alphabet :: "re \<Rightarrow> char set" where
  "alphabet (Rep cs m n) = set cs"
| "alphabet (Cat a b) = alphabet a \<union> alphabet b"
| "alphabet (Alt a b) = alphabet a \<union> alphabet b"

lemma rep_rem_split:
  assumes "t \<in> set (rep_rem cs m n s)"
  shows "\<exists>p. s = p @ t \<and> set p \<subseteq> set cs \<and> m \<le> length p"
proof -
  define k where "k = length (takeWhile (\<lambda>c. c \<in> set cs) s)"
  from assms obtain j where j: "t = drop j s" "m \<le> j" "j \<le> k"
    by (auto simp: rep_rem_def Let_def k_def split: option.splits)
  have "k \<le> length s" unfolding k_def by (rule length_takeWhile_le)
  have app: "take j (xs @ ys) = take j xs" if "j \<le> length xs" for xs ys :: string
    using that by simp
  have tk: "take j s = take j (takeWhile (\<lambda>c. c \<in> set cs) s)"
    using app[of "takeWhile (\<lambda>c. c \<in> set cs) s" "dropWhile (\<lambda>c. c \<in> set cs) s"] j(3)
    unfolding k_def takeWhile_dropWhile_id by simp
  have "set (take j s) \<subseteq> set cs"
  proof
    fix x assume "x \<in> set (take j s)"
    hence "x \<in> set (takeWhile (\<lambda>c. c \<in> set cs) s)" unfolding tk by (rule in_set_takeD)
    thus "x \<in> set cs" by (rule set_takeWhileD[THEN conjunct2])
  qed
  moreover have "length (take j s) = j" using j(3) \<open>k \<le> length s\<close> by simp
  ultimately show ?thesis using j by (intro exI[of _ "take j s"]) simp
qed

lemma rmatch_split:
  "t \<in> set (rmatch r s) \<Longrightarrow> \<exists>p. s = p @ t \<and> set p \<subseteq> alphabet r \<and> minlen r \<le> length p"
proof (induction r arbitrary: s t)
  case (Rep cs m n)
  then show ?case using rep_rem_split by simp
next
  case (Cat a b)
  then obtain u where u: "u \<in> set (rmatch a s)" "t \<in> set (rmatch b u)" by auto
  from Cat.IH(1)[OF u(1)] obtain p where p: "s = p @ u" "set p \<subseteq> alphabet a" "minlen a \<le> length p" by blast
  from Cat.IH(2)[OF u(2)] obtain q where q: "u = q @ t" "set q \<subseteq> alphabet b" "minlen b \<le> length q" by blast
  show ?case using p q by (intro exI[of _ "p @ q"]) auto
next
  case (Alt a b)
  then show ?case by (fastforce)
qed

lemma oem_shape:
  assumes "re_test oemPattern s"
  shows "6 \<le> length s \<and> set s \<subseteq> set cls_alnum"
proof -
  from assms have "[] \<in> set (rmatch oemPattern s)" by (simp add: re_test_def)
  from rmatch_split[OF this] obtain p where "s = p @ []" "set p \<subseteq> alphabet oemPattern" "minlen oemPattern \<le> length p" by blast
  moreover have "minlen oemPattern = 6" by (simp add: oemPattern_def)
  moreover have "alphabet oemPattern \<subseteq> set cls_alnum" by (auto simp: oemPattern_def cls_alnum_def)
  ultimately show ?thesis by auto
qed

lemma re_search_suffix:
  "re_search r s = Some d \<Longrightarrow> \<exists>k t. k \<le> length s \<and> t \<in> set (rmatch r (drop k s))"
proof (induction s)
  case Nil
  then show ?case by (auto split: list.splits)
next
  case (Cons c s)
  show ?case
  proof (cases "rmatch r (c # s)")
    case Nil
    with Cons.prems have "re_search r s = Some d" by simp
    from Cons.IH[OF this] obtain k t where "k \<le> length s" "t \<in> set (rmatch r (drop k s))" by blast
    then show ?thesis by (intro exI[of _ "Suc k"] exI[of _ t]) simp
  next
    case (Cons t ts)
    then show ?thesis by (intro exI[of _ 0] exI[of _ t]) simp
  qed
qed

lemma date_has_sep:
  assumes "re_search dateRangePattern s = Some d"
  shows "\<exists>c \<in> set s. c \<in> set cls_datesep"
proof -
  from re_search_suffix[OF assms] obtain k t where kt: "t \<in> set (rmatch dateRangePattern (drop k s))" by blast
  then obtain u v where u: "u \<in> set (rmatch (Rep cls_digit 4 (Some 4)) (drop k s))"
      and v: "v \<in> set (rmatch (Rep cls_datesep 1 (Some 1)) u)"
    by (auto simp: dateRangePattern_def)
  from rmatch_split[OF u] obtain p where p: "drop k s = p @ u" by blast
  from rmatch_split[OF v] obtain q where q: "u = q @ v" "set q \<subseteq> set cls_datesep" "1 \<le> length q" by auto
  from q obtain c where c: "c \<in> set q" by (cases q) auto
  hence "c \<in> set (drop k s)" using p q by simp
  hence "c \<in> set s" by (meson in_set_dropD)
  thus ?thesis using c q by blast
qed

lemma oem_no_date:
  assumes "re_test oemPattern s"
  shows "re_search dateRangePattern s = None"
proof (rule ccontr)
  assume "re_search dateRangePattern s \<noteq> None"
  then obtain d where "re_search dateRangePattern s = Some d" by auto
  from date_has_sep[OF this] obtain c where "c \<in> set s" "c \<in> set cls_datesep" by blast
  moreover have "set s \<subseteq> set cls_alnum" using oem_shape[OF assms] by simp
  ultimately show False by (auto simp: cls_alnum_def cls_upper_def cls_digit_def cls_datesep_def)
qed

section \<open>Facts about the loops of parsePartsPage\<close>

lemma parts_loop_eq:
  "parts_loop allCells i parts = parts @ List.map_filter (part_at allCells) [i..<length allCells]"
proof (induction allCells i parts rule: parts_loop.induct)
  case (1 allCells i parts)
  show ?case
  proof (cases "i < length allCells")
    case True
    hence upt: "[i..<length allCells] = i # [Suc i..<length allCells]" by (simp add: upt_conv_Cons)
    show ?thesis
    proof (cases "part_at allCells i")
      case None
      with True 1(1) upt show ?thesis
        by (subst parts_loop.simps) (simp add: List.map_filter_simps)
    next
      case (Some part)
      with True 1(2) upt show ?thesis
        by (subst parts_loop.simps) (simp add: List.map_filter_simps)
    qed
  next
    case False
    then show ?thesis by (subst parts_loop.simps) (simp add: List.map_filter_simps)
  qed
qed

lemma set_map_filter_Some:
  "set (List.map_filter f xs) = {y. \<exists>x \<in> set xs. f x = Some y}"
  by (induction xs) (auto simp: List.map_filter_simps split: option.splits)

lemma parsePartsPage_mem:
  "p \<in> set (parsePartsPage table) \<longleftrightarrow>
     (\<exists>allCells i. table = Some allCells \<and> i < length allCells \<and> part_at allCells i = Some p)"
  by (cases table) (auto simp: parsePartsPage_def parts_loop_eq set_map_filter_Some)

lemma part_at_Some:
  "part_at allCells i = Some p \<Longrightarrow> is_anchor (allCells ! i) \<and> partNumber p = allCells ! i
     \<and> quantity p = quantity_at allCells i \<and> modelDateRange p = scanDateRange allCells i (i + 1)"
  by (auto simp: part_at_def Let_def is_anchor_def split: if_splits)

lemma is_anchor_iff_part_at:
  "(part_at allCells i \<noteq> None) = is_anchor (allCells ! i)"
  using oem_shape[of "allCells ! i"] by (auto simp: part_at_def Let_def is_anchor_def)

lemma startsWith_set: "startsWith s t \<Longrightarrow> set t \<subseteq> set s"
  by (induction s t rule: startsWith.induct) auto

lemma includes_str_set: "includes_str s t \<Longrightarrow> set t \<subseteq> set s"
proof (induction s)
  case Nil
  thus ?case by simp
next
  case (Cons c s)
  from Cons.prems have "startsWith (c # s) t \<or> includes_str s t" by simp
  thus ?case
  proof
    assume "startsWith (c # s) t"
    thus ?thesis by (rule startsWith_set)
  next
    assume "includes_str s t"
    from Cons.IH[OF this] show ?thesis by auto
  qed
qed

lemma oem_no_part_number:
  assumes "re_test oemPattern cell"
  shows "\<not> includes_str (toLowerCase cell) ''part number''"
proof
  assume "includes_str (toLowerCase cell) ''part number''"
  from includes_str_set[OF this] have "CHR '' '' \<in> set (toLowerCase cell)" by auto
  then obtain c where c: "c \<in> set cell" "toLowerCase_char c = CHR '' ''"
    by (auto simp: toLowerCase_def)
  have "\<forall>c \<in> set cls_alnum. toLowerCase_char c \<noteq> CHR '' ''" by code_simp
  with c oem_shape[OF assms] show False by auto
qed

lemma is_anchor_oem: "is_anchor cell = (re_test oemPattern cell \<and> \<not> includes_str (toLowerCase cell) ''oem'')"
  using oem_no_part_number[of cell] by (auto simp: is_anchor_def is_header_text_def)

lemma bit_length_upper: "n < 2 ^ bit_length n"
proof (induction n rule: bit_length.induct)
  case (1 n)
  show ?case
  proof (cases "n \<le> 0")
    case True
    hence "n < 1" by simp
    thus ?thesis using True by (simp add: bit_length.simps[of n])
  next
    case False
    from 1[OF False] have "n div 2 < 2 ^ bit_length (n div 2)" .
    hence "n < 2 * 2 ^ bit_length (n div 2)" by linarith
    thus ?thesis using False by (simp add: bit_length.simps[of n])
  qed
qed

lemma bit_length_lower: "0 < n \<Longrightarrow> 2 ^ (bit_length n - 1) \<le> n"
proof (induction n rule: bit_length.induct)
  case (1 n)
  hence nz: "\<not> n \<le> 0" by simp
  show ?case
  proof (cases "n div 2 \<le> 0")
    case True
    hence "bit_length (n div 2) = 0" by (simp add: bit_length.simps[of "n div 2"])
    thus ?thesis using nz by (simp add: bit_length.simps[of n])
  next
    case False
    hence "0 < n div 2" by simp
    from "1.IH"[OF nz this] have le: "2 ^ (bit_length (n div 2) - 1) \<le> n div 2" .
    have "0 < bit_length (n div 2)" using False by (simp add: bit_length.simps[of "n div 2"])
    hence "(2::int) ^ bit_length (n div 2) = 2 * 2 ^ (bit_length (n div 2) - 1)"
      by (cases "bit_length (n div 2)") simp_all
    with le have "2 ^ bit_length (n div 2) \<le> n" by linarith
    thus ?thesis using nz by (simp add: bit_length.simps[of n])
  qed
qed

lemma nearest_double_None_iff:
  assumes "0 \<le> n"
  shows "(nearest_double n = None) = (2 ^ 1024 - 2 ^ 970 \<le> n)"
proof -
  define e where "e = bit_length n"
  have up: "n < 2 ^ e" unfolding e_def by (rule bit_length_upper)
  show ?thesis
  proof (cases "e \<le> 53")
    case True
    hence "(2::int) ^ e \<le> 2 ^ 53" by (intro power_increasing) simp_all
    with up have "n < 2 ^ 53" by linarith
    moreover have "(2::int) ^ 53 \<le> 2 ^ 1024 - 2 ^ 970" by simp
    ultimately have "\<not> 2 ^ 1024 - 2 ^ 970 \<le> n" by linarith
    thus ?thesis using True by (simp add: nearest_double_def e_def[symmetric])
  next
    case False
    hence e54: "54 \<le> e" by simp
    hence "0 < e" by simp
    hence npos: "0 < n" using e_def bit_length.simps[of n] by (auto split: if_splits)
    have lo: "2 ^ (e - 1) \<le> n" unfolding e_def by (rule bit_length_lower[OF npos])
    define ulp :: int where "ulp = 2 ^ (e - 53)"
    define q where "q = n div ulp"
    define r where "r = n mod ulp"
    define q' where "q' = (if ulp < 2 * r \<or> (2 * r = ulp \<and> odd q) then q + 1 else q)"
    have upos: "0 < ulp" by (simp add: ulp_def)
    have n: "n = q * ulp + r" by (simp add: q_def r_def)
    have r: "0 \<le> r" "r < ulp" using upos by (simp_all add: r_def)
    have pe: "(2::int) ^ e = 2 ^ 53 * ulp"
      unfolding ulp_def power_add[symmetric] using e54 by simp
    have pe1: "(2::int) ^ (e - 1) = 2 ^ 52 * ulp"
      unfolding ulp_def power_add[symmetric] using e54 by (intro arg_cong[of _ _ "\<lambda>k. 2 ^ k"]) simp
    have q_hi: "q < 2 ^ 53"
    proof (rule ccontr)
      assume "\<not> q < 2 ^ 53"
      hence "2 ^ 53 * ulp \<le> q * ulp" using upos by (intro mult_right_mono) simp_all
      with n r up pe show False by linarith
    qed
    have q_lo: "2 ^ 52 \<le> q"
    proof (rule ccontr)
      assume "\<not> 2 ^ 52 \<le> q"
      hence "q + 1 \<le> 2 ^ 52" by simp
      hence "(q + 1) * ulp \<le> 2 ^ 52 * ulp" using upos by (intro mult_right_mono) simp_all
      moreover have "(q + 1) * ulp = q * ulp + ulp" by (simp add: algebra_simps)
      ultimately show False using n r lo pe1 by linarith
    qed
    have nd: "nearest_double n = (if 2 ^ 1024 \<le> q' * ulp then None else Some (q' * ulp))"
      using False
      by (simp add: nearest_double_def e_def[symmetric] Let_def ulp_def q_def r_def q'_def)
    have q'_cases: "q' = q \<or> q' = q + 1" by (simp add: q'_def)
    consider (small) "e \<le> 1023" | (mid) "e = 1024" | (big) "1025 \<le> e" by linarith
    thus ?thesis
    proof cases
      case small
      hence le: "(2::int) ^ e \<le> 2 ^ 1023" by (intro power_increasing) simp_all
      have "q' \<le> 2 ^ 53" using q'_cases q_hi by auto
      hence "q' * ulp \<le> 2 ^ 53 * ulp" using upos by (intro mult_right_mono) simp_all
      with pe le have "q' * ulp \<le> 2 ^ 1023" by linarith
      moreover have "(2::int) ^ 1023 < 2 ^ 1024" by simp
      ultimately have a: "\<not> 2 ^ 1024 \<le> q' * ulp" by linarith
      have "(2::int) ^ 1023 \<le> 2 ^ 1024 - 2 ^ 970" by simp
      with up le have "\<not> 2 ^ 1024 - 2 ^ 970 \<le> n" by linarith
      with a nd show ?thesis by simp
    next
      case big
      hence le: "(2::int) ^ 1024 \<le> 2 ^ (e - 1)" by (intro power_increasing) simp_all
      have "q \<le> q'" using q'_cases by auto
      hence "q * ulp \<le> q' * ulp" using upos by (intro mult_right_mono) simp_all
      moreover have "2 ^ 52 * ulp \<le> q * ulp" using q_lo upos by (intro mult_right_mono) simp_all
      ultimately have a: "2 ^ 1024 \<le> q' * ulp" using pe1 le by linarith
      have "(2::int) ^ 1024 - 2 ^ 970 \<le> 2 ^ 1024" by simp
      with lo le have "2 ^ 1024 - 2 ^ 970 \<le> n" by linarith
      with a nd show ?thesis by simp
    next
      case mid
      hence u: "ulp = 2 ^ 971" by (simp add: ulp_def)
      have c: "(2::int) ^ 1024 = 2 ^ 53 * 2 ^ 971" "(2::int) ^ 971 = 2 * 2 ^ 970"
        by simp_all
      define A :: int where "A = 2 ^ 970"
      have A: "0 < A" "ulp = 2 * A" "(2::int) ^ 1024 = 2 ^ 54 * A" "(2::int) ^ 970 = A"
        by (simp_all add: A_def u)
      show ?thesis
      proof (cases "q = 2 ^ 53 - 1")
        case True
        hence "odd q" by simp
        hence q': "q' = (if ulp \<le> 2 * r then q + 1 else q)" by (auto simp: q'_def)
        have qa: "q * ulp = (2 ^ 54 - 2) * A" using True A(2) by simp
        show ?thesis
        proof (cases "ulp \<le> 2 * r")
          case t: True
          with q' have "q' * ulp = 2 ^ 54 * A" using True A(2) by simp
          moreover have "2 ^ 1024 - 2 ^ 970 \<le> n" using t n qa A by (simp add: algebra_simps)
          ultimately show ?thesis using nd A(3) by simp
        next
          case f: False
          with q' have "q' * ulp = (2 ^ 54 - 2) * A" using qa by simp
          moreover have "\<not> 2 ^ 1024 - 2 ^ 970 \<le> n" using f n qa A by (simp add: algebra_simps)
          ultimately show ?thesis using nd A(1,3) by (simp add: algebra_simps)
        qed
      next
        case False
        with q_hi have qs: "q + 1 \<le> 2 ^ 53 - 1" by simp
        hence b: "(q + 1) * ulp \<le> (2 ^ 53 - 1) * ulp" using upos by (intro mult_right_mono) simp_all
        have "q' \<le> q + 1" using q'_cases by auto
        hence "q' * ulp \<le> (q + 1) * ulp" using upos by (intro mult_right_mono) simp_all
        with b have "q' * ulp \<le> (2 ^ 53 - 1) * ulp" by linarith
        hence a: "\<not> 2 ^ 1024 \<le> q' * ulp" using A by (simp add: algebra_simps)
        have "(q + 1) * ulp = q * ulp + ulp" by (simp add: algebra_simps)
        hence "n < (q + 1) * ulp" using n r by linarith
        with b have "n < (2 ^ 53 - 1) * ulp" by linarith
        hence "\<not> 2 ^ 1024 - 2 ^ 970 \<le> n" using A by (simp add: algebra_simps)
        with a nd show ?thesis by simp
      qed
    qed
  qed
qed

lemma digit_val_nonneg: "digit_val c = Some d \<Longrightarrow> 0 \<le> d"
proof -
  assume "digit_val c = Some d"
  hence "(c, d) \<in> set (zip ''0123456789abcdefABCDEF''
                 [0, 1, 2, 3, 4, 5, 6, 7, 8, 9, 10, 11, 12, 13, 14, 15, 10, 11, 12, 13, 14, 15])"
    unfolding digit_val_def by (rule map_of_SomeD)
  hence "d \<in> set [0, 1, 2, 3, 4, 5, 6, 7, 8, 9, 10, 11, 12, 13, 14, 15, 10, 11, 12, 13, 14, 15]"
    by (rule set_zip_rightD)
  thus "0 \<le> d" by auto
qed

lemma digits_value_nonneg: "0 \<le> radix \<Longrightarrow> 0 \<le> digits_value radix ds"
proof -
  assume r: "0 \<le> radix"
  have "0 \<le> acc \<Longrightarrow>
          0 \<le> foldl (\<lambda>acc c. acc * radix + (case digit_val c of None \<Rightarrow> 0 | Some d \<Rightarrow> d)) acc ds"
    for acc
  proof (induction ds arbitrary: acc)
    case Nil
    thus ?case by simp
  next
    case (Cons c ds)
    have "0 \<le> (case digit_val c of None \<Rightarrow> 0 | Some d \<Rightarrow> d)"
      using digit_val_nonneg[of c] by (cases "digit_val c") simp_all
    with Cons.prems r have "0 \<le> acc * radix + (case digit_val c of None \<Rightarrow> 0 | Some d \<Rightarrow> d)"
      by simp
    from Cons.IH[OF this] show ?case by simp
  qed
  thus ?thesis unfolding digits_value_def by simp
qed

lemma parseInt_digits:
  assumes "ds \<noteq> []" and "set ds \<subseteq> set cls_digit"
  shows "parseInt ds = (case nearest_double (digits_value 10 ds) of
                          None \<Rightarrow> PosInfinity | Some m \<Rightarrow> Integral m)"
proof -
  from assms(1) obtain c cs where ds: "ds = c # cs" by (cases ds) auto
  with assms(2) have c: "c \<in> set cls_digit" by simp
  have "\<forall>c \<in> set cls_digit. c \<notin> set cls_space \<and> c \<noteq> CHR ''-'' \<and> c \<noteq> CHR ''+''
          \<and> c \<noteq> CHR ''x'' \<and> c \<noteq> CHR ''X'' \<and> is_digit_in 10 c"
    by code_simp
  hence d: "\<And>c. c \<in> set cls_digit \<Longrightarrow> c \<notin> set cls_space \<and> c \<noteq> CHR ''-'' \<and> c \<noteq> CHR ''+''
          \<and> c \<noteq> CHR ''x'' \<and> c \<noteq> CHR ''X'' \<and> is_digit_in 10 c"
    by blast
  have s1: "dropWhile (\<lambda>c. c \<in> set cls_space) ds = ds" using d[OF c] by (simp add: ds)
  have sg: "\<not> startsWith ds ''-''" "\<not> startsWith ds ''+''" using d[OF c] by (simp_all add: ds)
  have hx: "\<not> startsWith ds ''0x''" "\<not> startsWith ds ''0X''"
  proof -
    show "\<not> startsWith ds ''0x''"
    proof (cases cs)
      case Nil
      thus ?thesis by (simp add: ds)
    next
      case (Cons b bs)
      with assms(2) ds have "b \<in> set cls_digit" by simp
      from d[OF this] show ?thesis by (simp add: ds Cons)
    qed
    show "\<not> startsWith ds ''0X''"
    proof (cases cs)
      case Nil
      thus ?thesis by (simp add: ds)
    next
      case (Cons b bs)
      with assms(2) ds have "b \<in> set cls_digit" by simp
      from d[OF this] show ?thesis by (simp add: ds Cons)
    qed
  qed
  have tw: "takeWhile (is_digit_in 10) ds = ds"
    using assms(2) d by (intro takeWhile_eq_all_conv[THEN iffD2]) blast
  show ?thesis
    by (simp add: parseInt_def Let_def s1 sg hx tw assms(1) split: option.splits)
qed

lemma parseInt_infinity_iff:
  assumes "ds \<noteq> []" and "set ds \<subseteq> set cls_digit"
  shows "(parseInt ds = PosInfinity) = (2 ^ 1024 - 2 ^ 970 \<le> digits_value 10 ds)"
proof -
  have "0 \<le> digits_value 10 ds" by (rule digits_value_nonneg) simp
  from nearest_double_None_iff[OF this] show ?thesis
    unfolding parseInt_digits[OF assms] by (cases "nearest_double (digits_value 10 ds)") simp_all
qed

lemma quantity_at_cases:
  "quantity_at allCells i = None \<or> quantity_at allCells i = Some PosInfinity
   \<or> quantity_at allCells i = Some NegInfinity
   \<or> (\<exists>n. n \<noteq> 0 \<and> quantity_at allCells i = Some (Integral n))"
  by (auto simp: quantity_at_def split: option.splits number.splits)

lemma quantity_at_null:
  "parseInt (allCells ! (i + 1)) = NaN \<or> parseInt (allCells ! (i + 1)) = Integral 0
     \<Longrightarrow> quantity_at allCells i = None"
  by (auto simp: quantity_at_def cell_or_null_def split: option.splits)

lemma cell_or_null_mid:
  "k < length xs \<Longrightarrow> cell_or_null (pre @ xs @ post) (length pre + k) = cell_or_null xs k"
  by (simp add: cell_or_null_def nth_append)

lemma ex_len: "length example_cells = 8" by (simp add: example_cells_def)

lemma empty_not_oem: "\<not> re_test oemPattern []"
  using oem_shape[of "[]"] by auto

lemma empty_no_date: "re_search dateRangePattern [] = None"
  by code_simp

text \<open>What the scan from \<open>j\<close> on finds: the first cell \<open>j'\<close> of the window with a date
  range, if no cell before it has stopped the scan.\<close>

definition scan_finds :: "string list \<Rightarrow> nat \<Rightarrow> nat \<Rightarrow> string \<Rightarrow> nat \<Rightarrow> bool" where
  "scan_finds allCells i j d j' =
     (j \<le> j' \<and> j' < min (i + 16) (length allCells)
      \<and> re_search dateRangePattern (allCells ! j') = Some d
      \<and> (\<forall>k. j \<le> k \<and> k < j' \<longrightarrow>
            re_search dateRangePattern (allCells ! k) = None
            \<and> \<not> (i + 6 < k \<and> is_anchor (allCells ! k))))"

lemma scan_finds_step:
  assumes "re_search dateRangePattern (allCells ! j) = None"
    and "\<not> (i + 6 < j \<and> is_anchor (allCells ! j))"
  shows "(\<exists>j'. scan_finds allCells i j d j') = (\<exists>j'. scan_finds allCells i (Suc j) d j')"
proof
  assume "\<exists>j'. scan_finds allCells i j d j'"
  then obtain j' where f: "scan_finds allCells i j d j'" by blast
  with assms(1) have "j' \<noteq> j" by (auto simp: scan_finds_def)
  with f have "scan_finds allCells i (Suc j) d j'" by (auto simp: scan_finds_def)
  thus "\<exists>j'. scan_finds allCells i (Suc j) d j'" by blast
next
  assume "\<exists>j'. scan_finds allCells i (Suc j) d j'"
  then obtain j' where f: "scan_finds allCells i (Suc j) d j'" by blast
  have "scan_finds allCells i j d j'"
    unfolding scan_finds_def
  proof (intro conjI allI impI)
    fix k assume k: "j \<le> k \<and> k < j'"
    show "re_search dateRangePattern (allCells ! k) = None"
      using k f assms(1) by (cases "k = j") (auto simp: scan_finds_def)
    show "\<not> (i + 6 < k \<and> is_anchor (allCells ! k))"
      using k f assms(2) by (cases "k = j") (auto simp: scan_finds_def)
  qed (use f in \<open>auto simp: scan_finds_def\<close>)
  thus "\<exists>j'. scan_finds allCells i j d j'" by blast
qed

lemma scan_iff:
  "(scanDateRange allCells i j = Some d) = (\<exists>j'. scan_finds allCells i j d j')"
proof (induction allCells i j rule: scanDateRange.induct)
  case (1 allCells i j)
  show ?case
  proof (cases "j < min (i + 16) (length allCells)")
    case False
    hence "scanDateRange allCells i j = None"
      by (subst scanDateRange.simps) (simp only: if_False)
    moreover have "\<not> (\<exists>j'. scan_finds allCells i j d j')" using False by (auto simp: scan_finds_def)
    ultimately show ?thesis by simp
  next
    case lt: True
    show ?thesis
    proof (cases "allCells ! j = []")
      case True
      have n: "re_search dateRangePattern (allCells ! j) = None" using True empty_no_date by simp
      have a: "\<not> (i + 6 < j \<and> is_anchor (allCells ! j))"
        using True empty_not_oem by (simp add: is_anchor_def)
      have "scanDateRange allCells i j = scanDateRange allCells i (Suc j)"
        using lt True by (subst scanDateRange.simps) simp
      with "1.IH"(1)[OF lt True] scan_finds_step[OF n a, of d] show ?thesis by simp
    next
      case False
      show ?thesis
      proof (cases "re_search dateRangePattern (allCells ! j)")
        case (Some d')
        have s: "scanDateRange allCells i j = Some d'"
          using lt False Some by (subst scanDateRange.simps) simp
        have "(\<exists>j'. scan_finds allCells i j d j') = (d' = d)"
        proof
          assume "\<exists>j'. scan_finds allCells i j d j'"
          then obtain j' where f: "scan_finds allCells i j d j'" by blast
          have "j' = j"
          proof (rule ccontr)
            assume "j' \<noteq> j"
            with f have "re_search dateRangePattern (allCells ! j) = None"
              by (auto simp: scan_finds_def)
            with Some show False by simp
          qed
          with f Some show "d' = d" by (simp add: scan_finds_def)
        next
          assume "d' = d"
          with lt Some have "scan_finds allCells i j d j" by (auto simp: scan_finds_def)
          thus "\<exists>j'. scan_finds allCells i j d j'" by blast
        qed
        with s show ?thesis by auto
      next
        case None
        let ?stop = "j > i + 6 \<and> re_test oemPattern (allCells ! j)
                        \<and> \<not> includes_str (toLowerCase (allCells ! j)) ''oem''"
        have st: "?stop = (i + 6 < j \<and> is_anchor (allCells ! j))" by (simp add: is_anchor_oem)
        show ?thesis
        proof (cases ?stop)
          case True
          have s: "scanDateRange allCells i j = None"
            using lt False None True by (subst scanDateRange.simps) simp
          have "\<not> (\<exists>j'. scan_finds allCells i j d j')"
          proof
            assume "\<exists>j'. scan_finds allCells i j d j'"
            then obtain j' where f: "scan_finds allCells i j d j'" by blast
            with None have "j' \<noteq> j" by (auto simp: scan_finds_def)
            with f have "\<not> (i + 6 < j \<and> is_anchor (allCells ! j))" by (auto simp: scan_finds_def)
            with True st show False by simp
          qed
          with s show ?thesis by simp
        next
          case ns: False
          have s: "scanDateRange allCells i j = scanDateRange allCells i (Suc j)"
            using lt False None ns by (subst scanDateRange.simps) auto
          from ns st have a: "\<not> (i + 6 < j \<and> is_anchor (allCells ! j))" by simp
          from "1.IH"(2)[OF lt False None ns] s scan_finds_step[OF None a, of d]
          show ?thesis by simp
        qed
      qed
    qed
  qed
qed

lemma scan_window:
  "(\<forall>k. j \<le> k \<and> k < i + 16 \<longrightarrow> (k < length a) = (k < length b) \<and> (k < length a \<longrightarrow> a ! k = b ! k))
     \<Longrightarrow> scanDateRange a i j = scanDateRange b i j"
proof (induction a i j rule: scanDateRange.induct)
  case (1 a i j)
  note agree = "1.prems"
  have agree': "\<forall>k. Suc j \<le> k \<and> k < i + 16 \<longrightarrow> (k < length a) = (k < length b) \<and> (k < length a \<longrightarrow> a ! k = b ! k)"
    using agree by auto
  show ?case
  proof (cases "j < min (i + 16) (length a)")
    case False
    hence "\<not> j < min (i + 16) (length b)" using agree by auto
    moreover have "scanDateRange a i j = None" using False
      by (subst scanDateRange.simps) (simp only: if_False)
    moreover have "\<not> j < min (i + 16) (length b) \<Longrightarrow> scanDateRange b i j = None"
      by (subst scanDateRange.simps) (simp only: if_False)
    ultimately show ?thesis by simp
  next
    case True
    hence tb: "j < min (i + 16) (length b)" and eq: "a ! j = b ! j" using agree by auto
    show ?thesis
    proof (cases "a ! j = []")
      case e: True
      from "1.IH"(1)[OF True e agree'] True tb e eq show ?thesis
        by (simp add: scanDateRange.simps[of a i j] scanDateRange.simps[of b i j])
    next
      case ne: False
      show ?thesis
      proof (cases "re_search dateRangePattern (a ! j)")
        case (Some d)
        with True tb ne eq show ?thesis
          by (simp add: scanDateRange.simps[of a i j] scanDateRange.simps[of b i j])
      next
        case None
        let ?stop = "j > i + 6 \<and> re_test oemPattern (a ! j)
                        \<and> \<not> includes_str (toLowerCase (a ! j)) ''oem''"
        show ?thesis
        proof (cases ?stop)
          case st: True
          with True tb ne eq None show ?thesis
            by (simp add: scanDateRange.simps[of a i j] scanDateRange.simps[of b i j])
        next
          case st: False
          from "1.IH"(2)[OF True ne None st agree'] True tb ne eq None st show ?thesis
            by (auto simp: scanDateRange.simps[of a i j] scanDateRange.simps[of b i j])
        qed
      qed
    qed
  qed
qed

lemma window_agree:
  assumes "take 15 (drop (Suc i) a) = take 15 (drop (Suc i) b)"
  shows "\<forall>k. Suc i \<le> k \<and> k < i + 16 \<longrightarrow> (k < length a) = (k < length b) \<and> (k < length a \<longrightarrow> a ! k = b ! k)"
proof (intro allI impI)
  fix k assume k: "Suc i \<le> k \<and> k < i + 16"
  define n where "n = k - Suc i"
  have n: "n < 15" "k = Suc i + n" using k by (auto simp: n_def)
  have la: "(k < length a) = (n < length (take 15 (drop (Suc i) a)))" using n by auto
  have lb: "(k < length b) = (n < length (take 15 (drop (Suc i) b)))" using n by auto
  have na: "k < length a \<Longrightarrow> take 15 (drop (Suc i) a) ! n = a ! k" using n by simp
  have nb: "k < length b \<Longrightarrow> take 15 (drop (Suc i) b) ! n = b ! k" using n by simp
  show "(k < length a) = (k < length b) \<and> (k < length a \<longrightarrow> a ! k = b ! k)"
    using la lb na nb assms by auto
qed

lemma example_part_parsed: "example_part \<in> set (parsePartsPage (Some example_cells))"
  by code_simp

lemma table_columns_not_oem: "c \<in> set table_columns \<Longrightarrow> \<not> re_test oemPattern c"
proof -
  have "\<forall>c \<in> set table_columns. \<not> re_test oemPattern c" by code_simp
  thus "c \<in> set table_columns \<Longrightarrow> \<not> re_test oemPattern c" by blast
qed

section \<open>Claims about parsePartsPage\<close>

text \<open>
  Claim C9. Every part that \<open>parsePartsPage\<close> emits has a \<open>partNumber\<close> that matches
  the OEM pattern and so has at least 6 characters. The guard on line 502, which skips a
  candidate whose \<open>partNumber\<close> is shorter than 5 characters, is never taken: a cell that
  passed the two tests before it (\<open>is_anchor\<close>) is never that short, so a cell yields a
  part exactly when it passes those two tests.
\<close>

theorem partNumber_matches_oemPattern:
  "(\<forall>p \<in> set (parsePartsPage table).
      re_test oemPattern (partNumber p) \<and> 6 \<le> length (partNumber p))
   \<and> (\<forall>allCells i. is_anchor (allCells ! i) \<longrightarrow> \<not> length (allCells ! i) < 5)
   \<and> (\<forall>allCells i. (part_at allCells i \<noteq> None) = is_anchor (allCells ! i))"
proof (intro conjI ballI allI impI)
  fix p assume "p \<in> set (parsePartsPage table)"
  then obtain allCells i where "part_at allCells i = Some p" by (auto simp: parsePartsPage_mem)
  from part_at_Some[OF this] have "re_test oemPattern (partNumber p)" by (simp add: is_anchor_def)
  thus "re_test oemPattern (partNumber p)" .
  thus "6 \<le> length (partNumber p)" using oem_shape by blast
next
  fix allCells :: "string list" and i assume "is_anchor (allCells ! i)"
  thus "\<not> length (allCells ! i) < 5" using oem_shape[of "allCells ! i"] by (simp add: is_anchor_def)
next
  fix allCells :: "string list" and i
  show "(part_at allCells i \<noteq> None) = is_anchor (allCells ! i)" by (rule is_anchor_iff_part_at)
qed

theorem partNumber_matches_oemPattern_witness:
  "example_part \<in> set (parsePartsPage (Some example_cells))
   \<and> re_test oemPattern (partNumber example_part) \<and> 6 \<le> length (partNumber example_part)
   \<and> is_anchor (example_cells ! 2) \<and> \<not> length (example_cells ! 2) < 5"
proof -
  have a: "is_anchor (example_cells ! 2)" by code_simp
  from partNumber_matches_oemPattern[of "Some example_cells"] example_part_parsed a
  show ?thesis by blast
qed

lemma partNumbers_of_indices:
  "map partNumber (List.map_filter (part_at allCells) ks) = filter is_anchor (map (\<lambda>k. allCells ! k) ks)"
proof (induction ks)
  case Nil
  show ?case by (simp add: List.map_filter_simps)
next
  case (Cons k ks)
  show ?case
  proof (cases "part_at allCells k")
    case None
    hence "\<not> is_anchor (allCells ! k)" using is_anchor_iff_part_at[of allCells k] by simp
    with None Cons show ?thesis by (simp add: List.map_filter_simps)
  next
    case (Some p)
    from part_at_Some[OF this] Some Cons show ?thesis by (simp add: List.map_filter_simps)
  qed
qed

lemma partNumbers_are_anchors:
  "map partNumber (parsePartsPage (Some allCells)) = filter is_anchor allCells"
  by (simp add: parsePartsPage_def parts_loop_eq partNumbers_of_indices map_nth)

lemma header_word_oem:
  assumes "re_test oemPattern cell" and "toLowerCase cell \<in> set header_words"
  shows "cell = ''REQUIRED''"
proof -
  from oem_shape[OF assms(1)] have len: "6 \<le> length cell" and al: "set cell \<subseteq> set cls_alnum"
    by simp_all
  have "length (toLowerCase cell) = length cell" by (simp add: toLowerCase_def)
  with len assms(2) have "toLowerCase cell = ''required''"
    by (auto simp: header_words_def)
  moreover have "toLowerCase ''REQUIRED'' = ''required''" by code_simp
  ultimately have eq: "map toLowerCase_char cell = map toLowerCase_char ''REQUIRED''"
    by (simp add: toLowerCase_def)
  have "\<forall>a \<in> set cls_alnum. \<forall>b \<in> set cls_alnum. toLowerCase_char a = toLowerCase_char b \<longrightarrow> a = b"
    by code_simp
  hence inj: "inj_on toLowerCase_char (set cls_alnum)" by (auto simp: inj_on_def)
  have "set ''REQUIRED'' \<subseteq> set cls_alnum" by code_simp
  with al have "inj_on toLowerCase_char (set cell \<union> set ''REQUIRED'')"
    by (intro inj_on_subset[OF inj]) auto
  from map_inj_on[OF eq this] show ?thesis .
qed

text \<open>
  Claim C3, as amended. The \<open>partNumber\<close>s of the parts emitted are, in order, exactly
  the cells that have the OEM shape and do not contain "oem" in any letter case. So no
  cell that contains "oem" or "part number" (the header test of line 462) is ever
  emitted as a \<open>partNumber\<close>, and none of the column labels of the table is, "OEM part
  number" among them. Of the header words that \<open>cleanField\<close> knows (line 508), one has
  the OEM shape in some letter case, "REQUIRED": a cell with that text passes the header
  test and is emitted.
\<close>

theorem header_text_never_partNumber:
  "map partNumber (parsePartsPage (Some allCells))
     = filter (\<lambda>cell. re_test oemPattern cell \<and> \<not> includes_str (toLowerCase cell) ''oem'') allCells
   \<and> (\<forall>p \<in> set (parsePartsPage (Some allCells)).
        \<not> includes_str (toLowerCase (partNumber p)) ''oem''
        \<and> \<not> includes_str (toLowerCase (partNumber p)) ''part number''
        \<and> partNumber p \<notin> set table_columns)
   \<and> (\<forall>cell. re_test oemPattern cell \<and> toLowerCase cell \<in> set header_words
         \<longrightarrow> cell = ''REQUIRED'')"
proof (intro conjI ballI allI impI)
  show "map partNumber (parsePartsPage (Some allCells))
     = filter (\<lambda>cell. re_test oemPattern cell \<and> \<not> includes_str (toLowerCase cell) ''oem'') allCells"
    unfolding partNumbers_are_anchors by (intro filter_cong refl is_anchor_oem)
next
  fix p assume "p \<in> set (parsePartsPage (Some allCells))"
  hence "partNumber p \<in> set (map partNumber (parsePartsPage (Some allCells)))" by simp
  hence a: "is_anchor (partNumber p)" unfolding partNumbers_are_anchors by simp
  thus "\<not> includes_str (toLowerCase (partNumber p)) ''oem''"
    and "\<not> includes_str (toLowerCase (partNumber p)) ''part number''"
    by (simp_all add: is_anchor_def is_header_text_def)
  from a show "partNumber p \<notin> set table_columns"
    using table_columns_not_oem[of "partNumber p"] by (auto simp: is_anchor_def)
next
  fix cell assume "re_test oemPattern cell \<and> toLowerCase cell \<in> set header_words"
  thus "cell = ''REQUIRED''" using header_word_oem by blast
qed

text \<open>Example: a table that starts with its column labels, then two cells of the OEM
  shape that contain "OEM", the cell "REQUIRED" and the cells of the example.\<close>

definition header_cells :: "string list" where
  "header_cells = table_columns @ [''OEM12345'', ''OEMABC'', ''REQUIRED''] @ example_cells"

theorem header_text_never_partNumber_witness:
  "map partNumber (parsePartsPage (Some header_cells)) = [''REQUIRED'', ''MD123456'']
   \<and> re_test oemPattern ''OEM12345'' \<and> re_test oemPattern ''OEMABC''
   \<and> example_part \<in> set (parsePartsPage (Some header_cells))
   \<and> \<not> includes_str (toLowerCase (partNumber example_part)) ''oem''
   \<and> \<not> includes_str (toLowerCase (partNumber example_part)) ''part number''
   \<and> partNumber example_part \<notin> set table_columns
   \<and> re_test oemPattern ''REQUIRED'' \<and> toLowerCase ''REQUIRED'' \<in> set header_words"
proof -
  note inst = header_text_never_partNumber[of header_cells]
  have f: "filter (\<lambda>cell. re_test oemPattern cell \<and> \<not> includes_str (toLowerCase cell) ''oem'')
             header_cells = [''REQUIRED'', ''MD123456'']"
    by code_simp
  have o: "re_test oemPattern ''OEM12345'' \<and> re_test oemPattern ''OEMABC''
      \<and> re_test oemPattern ''REQUIRED'' \<and> toLowerCase ''REQUIRED'' \<in> set header_words"
    by code_simp
  have m: "example_part \<in> set (parsePartsPage (Some header_cells))" by code_simp
  from inst f have e: "map partNumber (parsePartsPage (Some header_cells)) = [''REQUIRED'', ''MD123456'']"
    by simp
  from inst m have "\<not> includes_str (toLowerCase (partNumber example_part)) ''oem''
        \<and> \<not> includes_str (toLowerCase (partNumber example_part)) ''part number''
        \<and> partNumber example_part \<notin> set table_columns"
    by blast
  with e o m show ?thesis by blast
qed

text \<open>The claim as it was stated fails on a header cell in capitals: "REQUIRED" has the
  OEM shape and is header text (\<open>cleanField\<close> drops it from every other field), and it
  is emitted as a \<open>partNumber\<close>.\<close>

theorem header_word_partNumber_counterexample:
  "map partNumber (parsePartsPage (Some [''No'', ''PNC'', ''REQUIRED'', ''1'', ''Bolt''])) = [''REQUIRED'']
   \<and> re_test oemPattern ''REQUIRED''
   \<and> toLowerCase ''REQUIRED'' \<in> set header_words
   \<and> cleanField (Some ''REQUIRED'') = None"
  by code_simp

text \<open>An example of the rounding: 2^53 + 1 is no double, and the nearest one is 2^53.\<close>

lemma parseInt_rounds: "parseInt ''9007199254740993'' = Integral 9007199254740992"
  by code_simp

text \<open>A quantity cell of 309 digits: the digit 2 and 308 zeros.\<close>

definition huge_cell :: string where
  "huge_cell = CHR ''2'' # replicate 308 (CHR ''0'')"

text \<open>
  Claim C10, as amended. The \<open>quantity\<close> of an emitted part is null, a nonzero integer
  or an infinity; it is never 0 and never NaN. When the cell after the anchor parses to
  0, or does not parse as an integer, the \<open>quantity\<close> is null. A run of decimal
  digits is read as an infinity exactly when its value is at least
  \<open>2 ^ 1024 - 2 ^ 970\<close>, where the nearest double overflows.
\<close>

theorem quantity_null_or_nonzero:
  "(\<forall>p \<in> set (parsePartsPage table).
      quantity p = None \<or> quantity p = Some PosInfinity \<or> quantity p = Some NegInfinity
      \<or> (\<exists>n. n \<noteq> 0 \<and> quantity p = Some (Integral n)))
   \<and> (\<forall>allCells i p. part_at allCells i = Some p \<longrightarrow>
         (parseInt (allCells ! (i + 1)) = Integral 0 \<or> parseInt (allCells ! (i + 1)) = NaN) \<longrightarrow>
         quantity p = None)
   \<and> (\<forall>ds. ds \<noteq> [] \<and> set ds \<subseteq> set cls_digit \<longrightarrow>
         (parseInt ds = PosInfinity) = (2 ^ 1024 - 2 ^ 970 \<le> digits_value 10 ds))
   \<and> (\<forall>n. 0 \<le> n \<longrightarrow> (nearest_double n = None) = (2 ^ 1024 - 2 ^ 970 \<le> n))"
proof (intro conjI ballI allI impI)
  fix p assume "p \<in> set (parsePartsPage table)"
  then obtain allCells i where "part_at allCells i = Some p" by (auto simp: parsePartsPage_mem)
  from part_at_Some[OF this] have "quantity p = quantity_at allCells i" by simp
  thus "quantity p = None \<or> quantity p = Some PosInfinity \<or> quantity p = Some NegInfinity
      \<or> (\<exists>n. n \<noteq> 0 \<and> quantity p = Some (Integral n))"
    using quantity_at_cases[of allCells i] by simp
next
  fix allCells i p
  assume "part_at allCells i = Some p"
    and "parseInt (allCells ! (i + 1)) = Integral 0 \<or> parseInt (allCells ! (i + 1)) = NaN"
  thus "quantity p = None" using part_at_Some[of allCells i p] quantity_at_null[of allCells i] by auto
next
  fix ds assume "ds \<noteq> [] \<and> set ds \<subseteq> set cls_digit"
  thus "(parseInt ds = PosInfinity) = (2 ^ 1024 - 2 ^ 970 \<le> digits_value 10 ds)"
    using parseInt_infinity_iff by blast
next
  fix n :: int assume "0 \<le> n"
  thus "(nearest_double n = None) = (2 ^ 1024 - 2 ^ 970 \<le> n)" by (rule nearest_double_None_iff)
qed

theorem quantity_null_or_nonzero_witness:
  "map quantity (parsePartsPage (Some [''MD123456'', ''0'', ''Bolt''])) = [None]
   \<and> map quantity (parsePartsPage (Some [''MD123456'', ''two'', ''Bolt''])) = [None]
   \<and> parseInt ''0'' = Integral 0 \<and> parseInt ''two'' = NaN
   \<and> quantity example_part = Some (Integral 2)
   \<and> nearest_double (2 ^ 53 + 1) = Some (2 ^ 53)
   \<and> nearest_double (2 ^ 1024 - 2 ^ 970) = None
   \<and> huge_cell \<noteq> [] \<and> set huge_cell \<subseteq> set cls_digit
   \<and> 2 ^ 1024 - 2 ^ 970 \<le> digits_value 10 huge_cell
   \<and> parseInt huge_cell = PosInfinity"
proof -
  let ?c0 = "[''MD123456'', ''0'', ''Bolt'']" and ?c1 = "[''MD123456'', ''two'', ''Bolt'']"
  let ?p = "\<lparr>partNumber = ''MD123456'', pnc = None, description = Some ''Bolt'', refNumber = None,
     quantity = None, spec = None, notes_text = None, color = None, modelDateRange = None\<rparr>"
  note inst = quantity_null_or_nonzero[of "Some example_cells"]
  have z: "parseInt ''0'' = Integral 0" and t: "parseInt ''two'' = NaN" by code_simp+
  have p0: "part_at ?c0 0 = Some ?p" and p1: "part_at ?c1 0 = Some ?p" by code_simp+
  have e0: "parsePartsPage (Some ?c0) = [?p]" and e1: "parsePartsPage (Some ?c1) = [?p]" by code_simp+
  have q: "quantity ?p = None" using inst p0 z by simp
  have x: "quantity example_part = Some (Integral 2)" by (simp add: example_part_def)
  have r: "nearest_double (2 ^ 53 + 1) = Some (2 ^ 53)" by code_simp
  have "(0::int) \<le> 2 ^ 1024 - 2 ^ 970" by simp
  with inst have o: "nearest_double (2 ^ 1024 - 2 ^ 970) = None" by blast
  have hd: "huge_cell \<noteq> [] \<and> set huge_cell \<subseteq> set cls_digit" by code_simp
  have hv: "2 ^ 1024 - 2 ^ 970 \<le> digits_value 10 huge_cell" by code_simp
  from inst hd hv have hi: "parseInt huge_cell = PosInfinity" by blast
  have a: "map quantity (parsePartsPage (Some ?c0)) = [None]
      \<and> map quantity (parsePartsPage (Some ?c1)) = [None]"
    using q e0 e1 by simp
  from a z t x r o hd hv hi show ?thesis by blast
qed

text \<open>The claim as it was stated fails on a quantity cell with a digit run that long:
  the \<open>quantity\<close> is positive infinity, which is neither null nor an integer.\<close>

theorem quantity_infinity_counterexample:
  "map quantity (parsePartsPage (Some [''MD123456'', huge_cell, ''Bolt''])) = [Some PosInfinity]
   \<and> parseInt huge_cell = PosInfinity \<and> length huge_cell = 309"
  by code_simp

text \<open>
  Claim C2. Wherever the eight cells "04403", "02878C", "MD123456", "2", "Bolt, Flange",
  "M8", "", "Black" stand in the flat cell sequence (after any cells \<open>pre\<close>, before
  any cells \<open>post\<close>), the pass of the loop at the anchor "MD123456" emits the record
  with \<open>partNumber\<close> "MD123456", \<open>pnc\<close> "02878C", \<open>refNumber\<close> "04403",
  \<open>quantity\<close> 2, \<open>description\<close> "Bolt, Flange", \<open>spec\<close> "M8", \<open>notes\<close> null
  and \<open>color\<close> "Black": \<open>refNumber\<close> and \<open>pnc\<close> are read two and one cells before
  the anchor, the other five from the five cells after it. Only \<open>modelDateRange\<close>
  depends on the cells that follow; on the eight cells alone it is null and the record
  is the only part.
\<close>

theorem example_anchor_fields:
  "part_at (pre @ example_cells @ post) (length pre + 2)
     = Some (example_part\<lparr>modelDateRange :=
         scanDateRange (pre @ example_cells @ post) (length pre + 2) (length pre + 3)\<rparr>)
   \<and> example_part\<lparr>modelDateRange :=
         scanDateRange (pre @ example_cells @ post) (length pre + 2) (length pre + 3)\<rparr>
       \<in> set (parsePartsPage (Some (pre @ example_cells @ post)))
   \<and> parsePartsPage (Some example_cells) = [example_part]"
proof -
  let ?cells = "pre @ example_cells @ post" and ?i = "length pre + 2"
  have c: "cell_or_null ?cells (length pre + k) = cell_or_null example_cells k" if "k < 8" for k
    using that cell_or_null_mid[of k example_cells pre post] by (simp add: ex_len)
  have v: "cell_or_null example_cells 0 = Some ''04403''" "cell_or_null example_cells 1 = Some ''02878C''"
    "cell_or_null example_cells 3 = Some ''2''" "cell_or_null example_cells 4 = Some ''Bolt, Flange''"
    "cell_or_null example_cells 5 = Some ''M8''" "cell_or_null example_cells 6 = None"
    "cell_or_null example_cells 7 = Some ''Black''"
    by code_simp+
  have c0: "cell_or_null ?cells (?i - 2) = Some ''04403''" using c[of 0] v by simp
  have c1: "cell_or_null ?cells (?i - 1) = Some ''02878C''" using c[of 1] v by simp
  have c3: "cell_or_null ?cells (?i + 1) = Some ''2''" using c[of 3] v by (simp add: numeral_eq_Suc)
  have c4: "cell_or_null ?cells (?i + 2) = Some ''Bolt, Flange''" using c[of 4] v by (simp add: numeral_eq_Suc)
  have c5: "cell_or_null ?cells (?i + 3) = Some ''M8''" using c[of 5] v by (simp add: numeral_eq_Suc)
  have c6: "cell_or_null ?cells (?i + 4) = None" using c[of 6] v by (simp add: numeral_eq_Suc)
  have c7: "cell_or_null ?cells (?i + 5) = Some ''Black''" using c[of 7] v by (simp add: numeral_eq_Suc)
  have nth: "?cells ! ?i = ''MD123456''" by (simp add: nth_append example_cells_def)
  have t1: "re_test oemPattern ''MD123456''" and t2: "\<not> is_header_text ''MD123456''" by code_simp+
  have f_pnc: "cleanPnc (Some ''02878C'') = Some ''02878C''" by code_simp
  have f_ref: "cleanField (Some ''04403'') = Some ''04403''" by code_simp
  have f_desc: "cleanDescription (cleanField (Some ''Bolt, Flange'')) = Some ''Bolt, Flange''" by code_simp
  have f_spec: "cleanField (Some ''M8'') = Some ''M8''" by code_simp
  have f_notes: "cleanField None = None" by code_simp
  have f_color: "cleanField (Some ''Black'') = Some ''Black''" by code_simp
  have q: "parseInt ''2'' = Integral 2" by code_simp
  have s3: "Suc (Suc (Suc (length pre))) = length pre + 3" by simp
  have ge: "?i \<ge> 1" "?i \<ge> 2" by simp_all
  have pa: "part_at ?cells ?i = Some (example_part\<lparr>modelDateRange := scanDateRange ?cells ?i (length pre + 3)\<rparr>)"
    unfolding part_at_def Let_def quantity_at_def nth c0 c1 c3 c4 c5 c6 c7 f_pnc f_ref f_desc f_spec f_notes f_color q
    using t1 t2 ge by (simp add: example_part_def f_pnc f_ref q s3)
  have "?i < length ?cells" by (simp add: ex_len)
  with pa have mem: "example_part\<lparr>modelDateRange := scanDateRange ?cells ?i (length pre + 3)\<rparr>
      \<in> set (parsePartsPage (Some ?cells))"
    unfolding parsePartsPage_mem by blast
  have "parsePartsPage (Some example_cells) = [example_part]" by code_simp
  with pa mem show ?thesis by simp
qed

theorem example_anchor_fields_witness:
  "part_at ([''No'', ''PNC#''] @ example_cells @ [''1995.06-2001.08'']) 4
     = Some (example_part\<lparr>modelDateRange := Some ''1995.06-2001.08''\<rparr>)
   \<and> parsePartsPage (Some ([''No'', ''PNC#''] @ example_cells @ [''1995.06-2001.08'']))
     = [example_part\<lparr>modelDateRange := Some ''1995.06-2001.08''\<rparr>]
   \<and> parsePartsPage (Some example_cells) = [example_part]"
proof -
  have s: "scanDateRange ([''No'', ''PNC#''] @ example_cells @ [''1995.06-2001.08'']) 4 5
             = Some ''1995.06-2001.08''"
    by code_simp
  have p: "parsePartsPage (Some ([''No'', ''PNC#''] @ example_cells @ [''1995.06-2001.08'']))
     = [example_part\<lparr>modelDateRange := Some ''1995.06-2001.08''\<rparr>]"
    by code_simp
  have l: "length [''No'', ''PNC#''] + 2 = 4" "length [''No'', ''PNC#''] + 3 = 5" by simp_all
  note inst = example_anchor_fields[of "[''No'', ''PNC#'']" "[''1995.06-2001.08'']", unfolded l s]
  from inst p show ?thesis by blast
qed

text \<open>
  Claim C4, as amended. For the anchor at index \<open>i\<close>, the scan for \<open>modelDateRange\<close>
  reads the cells \<open>i + 1\<close> to \<open>i + 15\<close> only: two cell sequences with the same cells
  there give the same result. The date range \<open>d\<close> is assigned exactly when \<open>d\<close> is the
  first date range of a cell \<open>j\<close> of that window, no cell before \<open>j\<close> holds a date range,
  and no cell before \<open>j\<close> and past the minimum offset (\<open>i + 6 < k\<close>) is an anchor (of
  the OEM shape and not header text). So when an anchor stands at an offset of 7 or
  more and no cell before it holds a date range, the scan stops there and nothing is
  assigned: a date range behind that anchor is never assigned to the record of \<open>i\<close>.
  An anchor at an offset of 6 or less does not stop the scan, and the first date range
  behind it in the window is assigned to the record of \<open>i\<close>.
\<close>

theorem date_scan_window_and_stop:
  "(\<forall>a b i. take 15 (drop (Suc i) a) = take 15 (drop (Suc i) b) \<longrightarrow>
       scanDateRange a i (i + 1) = scanDateRange b i (i + 1))
   \<and> (\<forall>allCells i p d. part_at allCells i = Some p \<longrightarrow>
        (modelDateRange p = Some d)
          = (\<exists>j. i < j \<and> j \<le> i + 15 \<and> j < length allCells
              \<and> re_search dateRangePattern (allCells ! j) = Some d
              \<and> (\<forall>k. i < k \<and> k < j \<longrightarrow>
                    re_search dateRangePattern (allCells ! k) = None
                    \<and> \<not> (i + 6 < k \<and> is_anchor (allCells ! k)))))
   \<and> (\<forall>allCells i p k. part_at allCells i = Some p \<and> i + 6 < k \<and> is_anchor (allCells ! k)
          \<and> (\<forall>m. i < m \<and> m < k \<longrightarrow> re_search dateRangePattern (allCells ! m) = None)
        \<longrightarrow> modelDateRange p = None)"
proof (intro conjI allI impI)
  fix a b :: "string list" and i
  assume "take 15 (drop (Suc i) a) = take 15 (drop (Suc i) b)"
  from scan_window[OF window_agree[OF this]] show "scanDateRange a i (i + 1) = scanDateRange b i (i + 1)" by simp
next
  fix allCells i p d
  assume "part_at allCells i = Some p"
  with part_at_Some[of allCells i p] have m: "modelDateRange p = scanDateRange allCells i (i + 1)" by simp
  have "(\<exists>j. scan_finds allCells i (i + 1) d j)
          = (\<exists>j. i < j \<and> j \<le> i + 15 \<and> j < length allCells
              \<and> re_search dateRangePattern (allCells ! j) = Some d
              \<and> (\<forall>k. i < k \<and> k < j \<longrightarrow>
                    re_search dateRangePattern (allCells ! k) = None
                    \<and> \<not> (i + 6 < k \<and> is_anchor (allCells ! k))))"
    by (intro arg_cong[of _ _ Ex] ext) (auto simp: scan_finds_def)
  thus "(modelDateRange p = Some d)
          = (\<exists>j. i < j \<and> j \<le> i + 15 \<and> j < length allCells
              \<and> re_search dateRangePattern (allCells ! j) = Some d
              \<and> (\<forall>k. i < k \<and> k < j \<longrightarrow>
                    re_search dateRangePattern (allCells ! k) = None
                    \<and> \<not> (i + 6 < k \<and> is_anchor (allCells ! k))))"
    unfolding m scan_iff by simp
next
  fix allCells i p k
  assume h: "part_at allCells i = Some p \<and> i + 6 < k \<and> is_anchor (allCells ! k)
          \<and> (\<forall>m. i < m \<and> m < k \<longrightarrow> re_search dateRangePattern (allCells ! m) = None)"
  with part_at_Some[of allCells i p] have m: "modelDateRange p = scanDateRange allCells i (i + 1)" by simp
  have "scanDateRange allCells i (i + 1) \<noteq> Some d" for d
  proof
    assume "scanDateRange allCells i (i + 1) = Some d"
    then obtain j where f: "scan_finds allCells i (i + 1) d j" unfolding scan_iff by blast
    hence j: "i < j" "re_search dateRangePattern (allCells ! j) = Some d"
      by (simp_all add: scan_finds_def)
    from h have nk: "re_search dateRangePattern (allCells ! k) = None"
      using oem_no_date[of "allCells ! k"] by (simp add: is_anchor_def)
    consider "j < k" | "j = k" | "k < j" by linarith
    thus False
    proof cases
      case 1
      with h j show False by auto
    next
      case 2
      with nk j show False by simp
    next
      case 3
      with f h show False by (auto simp: scan_finds_def)
    qed
  qed
  thus "modelDateRange p = None" unfolding m by (cases "scanDateRange allCells i (i + 1)") auto
qed

text \<open>Example: a date range behind the anchor at offset 7 is not assigned, one in
  front of it is, and a date range in cell \<open>i + 16\<close> is not seen.\<close>

definition scan_cells_stop :: "string list" where
  "scan_cells_stop = [''MD123456'', ''1'', ''Bolt'', ''M8'', ''a'', ''b'', ''c'',
                      ''MB222222'', ''1995.06-2001.08'']"

definition scan_cells_hit :: "string list" where
  "scan_cells_hit = [''MD123456'', ''1'', ''Bolt'', ''M8'', ''a'', ''b'', ''1995.06-2001.08'',
                     ''MB222222'', ''1996.01-1999.12'']"

definition scan_cells_far :: "string \<Rightarrow> string list" where
  "scan_cells_far last_cell = [''MD123456''] @ replicate 15 ''x'' @ [last_cell]"

definition scan_part :: "string option \<Rightarrow> ParsedPart" where
  "scan_part found = \<lparr>partNumber = ''MD123456'', pnc = None, description = Some ''Bolt'',
     refNumber = None, quantity = Some (Integral 1), spec = Some ''M8'', notes_text = Some ''a'',
     color = Some ''b'', modelDateRange = found\<rparr>"

theorem date_scan_window_and_stop_witness:
  "take 15 (drop (Suc 0) (scan_cells_far ''1995.06-2001.08''))
     = take 15 (drop (Suc 0) (scan_cells_far ''y''))
   \<and> scanDateRange (scan_cells_far ''1995.06-2001.08'') 0 (0 + 1)
     = scanDateRange (scan_cells_far ''y'') 0 (0 + 1)
   \<and> scanDateRange (scan_cells_far ''1995.06-2001.08'') 0 (0 + 1) = None
   \<and> part_at scan_cells_stop 0 = Some (scan_part None)
   \<and> is_anchor (scan_cells_stop ! 7)
   \<and> modelDateRange (scan_part None) = None
   \<and> part_at scan_cells_hit 0 = Some (scan_part (Some ''1995.06-2001.08''))
   \<and> (\<exists>j. 0 < j \<and> j \<le> 0 + 15 \<and> j < length scan_cells_hit
        \<and> re_search dateRangePattern (scan_cells_hit ! j) = Some ''1995.06-2001.08'')"
proof -
  have w: "take 15 (drop (Suc 0) (scan_cells_far ''1995.06-2001.08''))
     = take 15 (drop (Suc 0) (scan_cells_far ''y''))"
    by code_simp
  have n: "scanDateRange (scan_cells_far ''y'') 0 (0 + 1) = None" by code_simp
  have st: "part_at scan_cells_stop 0 = Some (scan_part None)"
    and a: "is_anchor (scan_cells_stop ! 7)"
    and p: "part_at scan_cells_hit 0 = Some (scan_part (Some ''1995.06-2001.08''))"
    by code_simp+
  have m: "modelDateRange (scan_part (Some ''1995.06-2001.08'')) = Some ''1995.06-2001.08''"
    by (simp add: scan_part_def)
  have nd: "\<forall>m. 0 < m \<and> m < 7 \<longrightarrow> re_search dateRangePattern (scan_cells_stop ! m) = None"
  proof (intro allI impI)
    fix m :: nat assume "0 < m \<and> m < 7"
    hence i: "m \<in> set [1, 2, 3, 4, 5, 6]" by auto
    have "\<forall>m \<in> set [1, 2, 3, 4, 5, 6]. re_search dateRangePattern (scan_cells_stop ! m) = None"
      by code_simp
    from bspec[OF this i] show "re_search dateRangePattern (scan_cells_stop ! m) = None" .
  qed
  note inst = date_scan_window_and_stop
  from inst w have e: "scanDateRange (scan_cells_far ''1995.06-2001.08'') 0 (0 + 1)
     = scanDateRange (scan_cells_far ''y'') 0 (0 + 1)"
    by blast
  have "0 + 6 < (7::nat)" by simp
  with inst st a nd have s: "modelDateRange (scan_part None) = None" by blast
  from inst p m have "\<exists>j. 0 < j \<and> j \<le> 0 + 15 \<and> j < length scan_cells_hit
            \<and> re_search dateRangePattern (scan_cells_hit ! j) = Some ''1995.06-2001.08''
            \<and> (\<forall>k. 0 < k \<and> k < j \<longrightarrow>
                    re_search dateRangePattern (scan_cells_hit ! k) = None
                    \<and> \<not> (0 + 6 < k \<and> is_anchor (scan_cells_hit ! k)))"
    by blast
  hence h: "\<exists>j. 0 < j \<and> j \<le> 0 + 15 \<and> j < length scan_cells_hit
            \<and> re_search dateRangePattern (scan_cells_hit ! j) = Some ''1995.06-2001.08''"
    by blast
  from w e n st a s p h show ?thesis by (simp only:)
qed

text \<open>The claim as it was stated fails when the next anchor stands at an offset of 6 or
  less: the scan from the first anchor passes the second one (in cell 6) and takes the
  date range in cell 9, which lies behind the second anchor and is assigned to its
  record too.\<close>

definition scan_cells_near :: "string list" where
  "scan_cells_near = [''MD123456'', ''2'', ''Bolt'', ''M8'', ''04404'', ''02879'',
                      ''MB222222'', ''1'', ''Nut'', ''1996.01-1999.12'']"

theorem date_scan_next_record_counterexample:
  "map partNumber (parsePartsPage (Some scan_cells_near)) = [''MD123456'', ''MB222222'']
   \<and> map modelDateRange (parsePartsPage (Some scan_cells_near))
       = [Some ''1996.01-1999.12'', Some ''1996.01-1999.12'']
   \<and> is_anchor (scan_cells_near ! 0) \<and> is_anchor (scan_cells_near ! 6)
   \<and> re_search dateRangePattern (scan_cells_near ! 9) = Some ''1996.01-1999.12''"
  by code_simp

section \<open>The rate-limited fetcher\<close>

text \<open>The fetcher tuning of \<open>ScraperConfig\<close> (\<open>types.ts\<close>), in milliseconds, and the
  values \<open>DEFAULT_CONFIG\<close> gives them.\<close>

record ScraperConfig =
  initialDelay :: real
  minDelay :: real
  maxDelay :: real
  backoffMultiplier :: real

definition DEFAULT_CONFIG :: ScraperConfig where
  "DEFAULT_CONFIG = \<lparr>initialDelay = 3000, minDelay = 1000, maxDelay = 120000,
                       backoffMultiplier = 3 / 2\<rparr>"

text \<open>What the network answers to one request, as far as the fetcher's algorithm tells
  the answers apart.\<close>

datatype response = Success string | Http429 | TransportError string

datatype fetch_result = Ok_html string | Failure string

record RateLimitedFetcher =
  currentDelay :: real

text \<open>Modelled from the spec: \<open>scraper/fetcher.ts\<close> (the class \<open>RateLimitedFetcher\<close>)
  is not among the sources. The fetcher starts with \<open>currentDelay = initialDelay\<close>.\<close>

definition new_fetcher :: "ScraperConfig \<Rightarrow> RateLimitedFetcher" where
  "new_fetcher config = \<lparr>currentDelay = initialDelay config\<rparr>"

text \<open>Modelled from the spec: the backoff step of \<open>scraper/fetcher.ts\<close>, which is not among
  the sources: "multiply \<open>currentDelay\<close> by \<open>backoffMultiplier\<close>, clamped to
  \<open>maxDelay\<close>".\<close>

definition backoff :: "ScraperConfig \<Rightarrow> RateLimitedFetcher \<Rightarrow> RateLimitedFetcher" where
  "backoff config f = f\<lparr>currentDelay := min (currentDelay f * backoffMultiplier config) (maxDelay config)\<rparr>"

text \<open>Modelled from the spec: \<open>fetch\<close> of \<open>scraper/fetcher.ts\<close>, which is not among the
  sources. "Before every fetch, suspend for \<open>currentDelay\<close>. On success, relax
  \<open>currentDelay\<close> toward \<open>minDelay\<close>. On HTTP 429 or transport error, multiply
  \<open>currentDelay\<close> by \<open>backoffMultiplier\<close>, clamped to \<open>maxDelay\<close>, and the call still
  returns a failure result." The result is the delay slept before the request, the
  discriminated result and the fetcher afterwards. The spec does not say by how much a
  success relaxes the delay, so that step is the parameter \<open>relax\<close>.\<close>

definition fetch ::
  "(ScraperConfig \<Rightarrow> real \<Rightarrow> real) \<Rightarrow> ScraperConfig \<Rightarrow> response \<Rightarrow> RateLimitedFetcher
     \<Rightarrow> real \<times> fetch_result \<times> RateLimitedFetcher" where
  "fetch relax config answer f =
     (case answer of
        Success html \<Rightarrow> (currentDelay f, Ok_html html, f\<lparr>currentDelay := relax config (currentDelay f)\<rparr>)
      | Http429 \<Rightarrow> (currentDelay f, Failure ''HTTP 429'', backoff config f)
      | TransportError e \<Rightarrow> (currentDelay f, Failure e, backoff config f))"

text \<open>Modelled from the spec: consecutive calls of \<open>fetch\<close> (of the absent
  \<open>scraper/fetcher.ts\<close>) on one fetcher, one per answer of the network; the delays slept
  and the results, in order, and the fetcher at the end.\<close>

fun fetch_all ::
  "(ScraperConfig \<Rightarrow> real \<Rightarrow> real) \<Rightarrow> ScraperConfig \<Rightarrow> response list \<Rightarrow> RateLimitedFetcher
     \<Rightarrow> (real \<times> fetch_result) list \<times> RateLimitedFetcher" where
  "fetch_all relax config [] f = ([], f)"
| "fetch_all relax config (answer # answers) f =
     (case fetch relax config answer f of
        (slept, result, f') \<Rightarrow>
          (case fetch_all relax config answers f' of
             (rest, f'') \<Rightarrow> ((slept, result) # rest, f'')))"

definition is_failure_answer :: "response \<Rightarrow> bool" where
  "is_failure_answer answer = (case answer of Success html \<Rightarrow> False | Http429 \<Rightarrow> True | TransportError e \<Rightarrow> True)"

definition is_Failure :: "fetch_result \<Rightarrow> bool" where
  "is_Failure r = (case r of Ok_html html \<Rightarrow> False | Failure e \<Rightarrow> True)"

lemma fetch_failure:
  "is_failure_answer answer \<Longrightarrow>
     fst (fetch relax config answer f) = currentDelay f
     \<and> is_Failure (fst (snd (fetch relax config answer f)))
     \<and> snd (snd (fetch relax config answer f)) = backoff config f"
  by (cases answer) (simp_all add: fetch_def is_failure_answer_def is_Failure_def)

text \<open>
  Claim C8. With \<open>initialDelay\<close> 3000 and \<open>backoffMultiplier\<close> 1.5 (and a \<open>maxDelay\<close>
  of at least 6750, as the 120000 of \<open>DEFAULT_CONFIG\<close> is), three consecutive failing
  fetches (HTTP 429 or transport error) sleep exactly 3000, 4500 and 6750 milliseconds
  before the request, each at most \<open>maxDelay\<close>, and each returns a failure result. On
  every failing fetch, whatever the configuration, the delay afterwards is the delay
  before times the multiplier, clamped to \<open>maxDelay\<close>, and the call returns a failure.
\<close>

theorem backoff_delays:
  "(initialDelay config = 3000 \<and> backoffMultiplier config = 3 / 2 \<and> 6750 \<le> maxDelay config
      \<and> is_failure_answer a1 \<and> is_failure_answer a2 \<and> is_failure_answer a3 \<longrightarrow>
      map fst (fst (fetch_all relax config [a1, a2, a3] (new_fetcher config))) = [3000, 4500, 6750]
      \<and> (\<forall>d \<in> set (map fst (fst (fetch_all relax config [a1, a2, a3] (new_fetcher config)))).
            d \<le> maxDelay config)
      \<and> (\<forall>r \<in> set (map snd (fst (fetch_all relax config [a1, a2, a3] (new_fetcher config)))).
            is_Failure r))
   \<and> (is_failure_answer a \<longrightarrow>
        currentDelay (snd (snd (fetch relax config a f)))
          = min (currentDelay f * backoffMultiplier config) (maxDelay config)
        \<and> currentDelay (snd (snd (fetch relax config a f))) \<le> maxDelay config
        \<and> is_Failure (fst (snd (fetch relax config a f))))"
proof (intro conjI impI)
  assume h: "initialDelay config = 3000 \<and> backoffMultiplier config = 3 / 2 \<and> 6750 \<le> maxDelay config
      \<and> is_failure_answer a1 \<and> is_failure_answer a2 \<and> is_failure_answer a3"
  let ?f0 = "new_fetcher config"
  let ?f1 = "backoff config ?f0"
  let ?f2 = "backoff config ?f1"
  have d0: "currentDelay ?f0 = 3000" using h by (simp add: new_fetcher_def)
  have d1: "currentDelay ?f1 = 4500" using h d0 by (simp add: backoff_def)
  have d2: "currentDelay ?f2 = 6750" using h d1 by (simp add: backoff_def)
  obtain r1 where s1: "fetch relax config a1 ?f0 = (3000, r1, ?f1)" and f1: "is_Failure r1"
    using fetch_failure[of a1 relax config ?f0] h d0 by (metis prod.collapse)
  obtain r2 where s2: "fetch relax config a2 ?f1 = (4500, r2, ?f2)" and f2: "is_Failure r2"
    using fetch_failure[of a2 relax config ?f1] h d1 by (metis prod.collapse)
  obtain r3 where s3: "fetch relax config a3 ?f2 = (6750, r3, backoff config ?f2)"
      and f3: "is_Failure r3"
    using fetch_failure[of a3 relax config ?f2] h d2 by (metis prod.collapse)
  have all: "fst (fetch_all relax config [a1, a2, a3] ?f0) = [(3000, r1), (4500, r2), (6750, r3)]"
    by (simp add: s1 s2 s3)
  show "map fst (fst (fetch_all relax config [a1, a2, a3] ?f0)) = [3000, 4500, 6750]"
    unfolding all by simp
  show "\<forall>d \<in> set (map fst (fst (fetch_all relax config [a1, a2, a3] ?f0))). d \<le> maxDelay config"
    unfolding all using h by simp
  show "\<forall>r \<in> set (map snd (fst (fetch_all relax config [a1, a2, a3] ?f0))). is_Failure r"
    unfolding all using f1 f2 f3 by simp
next
  assume a: "is_failure_answer a"
  from fetch_failure[OF a, of relax config f]
  show "currentDelay (snd (snd (fetch relax config a f)))
          = min (currentDelay f * backoffMultiplier config) (maxDelay config)"
    by (simp add: backoff_def)
  thus "currentDelay (snd (snd (fetch relax config a f))) \<le> maxDelay config" by simp
  from fetch_failure[OF a, of relax config f]
  show "is_Failure (fst (snd (fetch relax config a f)))" by simp
qed

theorem backoff_delays_witness:
  "initialDelay DEFAULT_CONFIG = 3000 \<and> backoffMultiplier DEFAULT_CONFIG = 3 / 2
   \<and> 6750 \<le> maxDelay DEFAULT_CONFIG
   \<and> is_failure_answer Http429 \<and> is_failure_answer (TransportError ''timeout'')
   \<and> map fst (fst (fetch_all (\<lambda>c d. max (minDelay c) (d / 2)) DEFAULT_CONFIG
        [Http429, TransportError ''timeout'', Http429] (new_fetcher DEFAULT_CONFIG)))
      = [3000, 4500, 6750]
   \<and> map snd (fst (fetch_all (\<lambda>c d. max (minDelay c) (d / 2)) DEFAULT_CONFIG
        [Http429, TransportError ''timeout'', Http429] (new_fetcher DEFAULT_CONFIG)))
      = [Failure ''HTTP 429'', Failure ''timeout'', Failure ''HTTP 429'']
   \<and> currentDelay (snd (snd (fetch (\<lambda>c d. max (minDelay c) (d / 2)) DEFAULT_CONFIG Http429
        \<lparr>currentDelay = 100000\<rparr>))) = 120000"
proof -
  have c: "initialDelay DEFAULT_CONFIG = 3000 \<and> backoffMultiplier DEFAULT_CONFIG = 3 / 2
     \<and> 6750 \<le> maxDelay DEFAULT_CONFIG"
    by (simp add: DEFAULT_CONFIG_def)
  have f: "is_failure_answer Http429 \<and> is_failure_answer (TransportError ''timeout'')"
    by (simp add: is_failure_answer_def)
  have r: "map snd (fst (fetch_all (\<lambda>c d. max (minDelay c) (d / 2)) DEFAULT_CONFIG
        [Http429, TransportError ''timeout'', Http429] (new_fetcher DEFAULT_CONFIG)))
      = [Failure ''HTTP 429'', Failure ''timeout'', Failure ''HTTP 429'']"
    by (simp add: fetch_def split: prod.splits)
  have m: "min (currentDelay \<lparr>currentDelay = 100000\<rparr> * backoffMultiplier DEFAULT_CONFIG)
             (maxDelay DEFAULT_CONFIG) = 120000"
    by (simp add: DEFAULT_CONFIG_def)
  note inst = backoff_delays[of DEFAULT_CONFIG Http429 "TransportError ''timeout''" Http429
      "\<lambda>c d. max (minDelay c) (d / 2)" Http429 "\<lparr>currentDelay = 100000\<rparr>"]
  from inst c f have d: "map fst (fst (fetch_all (\<lambda>c d. max (minDelay c) (d / 2)) DEFAULT_CONFIG
        [Http429, TransportError ''timeout'', Http429] (new_fetcher DEFAULT_CONFIG)))
      = [3000, 4500, 6750]"
    by blast
  from inst f have "currentDelay (snd (snd (fetch (\<lambda>c d. max (minDelay c) (d / 2)) DEFAULT_CONFIG
        Http429 \<lparr>currentDelay = 100000\<rparr>)))
      = min (currentDelay \<lparr>currentDelay = 100000\<rparr> * backoffMultiplier DEFAULT_CONFIG)
          (maxDelay DEFAULT_CONFIG)"
    by blast
  with m have e: "currentDelay (snd (snd (fetch (\<lambda>c d. max (minDelay c) (d / 2)) DEFAULT_CONFIG
        Http429 \<lparr>currentDelay = 100000\<rparr>))) = 120000"
    by (simp only:)
  from c f d r e show ?thesis by blast
qed

section \<open>The persistent store\<close>

text \<open>
  A row of the table \<open>parts\<close> (\<open>createSchema\<close>, and the interface \<open>Part\<close> of
  \<open>types.ts\<close>). A column whose name is a field of \<open>ParsedPart\<close> or a constant of HOL
  carries the suffix \<open>_col\<close>. \<open>replaces_id\<close> is the column of the older schema that
  \<open>migrateReplacesIdToReplacementPartNumber\<close> reads; it is \<open>None\<close> where the column is
  NULL or has been dropped.
\<close>

record Part =
  id_col :: nat
  detail_page_id :: "string option"
  part_number :: string
  pnc_col :: "string option"
  description_col :: "string option"
  ref_number :: "string option"
  quantity_col :: "number option"
  spec_col :: "string option"
  notes_col :: "string option"
  color_col :: "string option"
  model_date_range :: "string option"
  diagram_id :: string
  group_id :: string
  subgroup_id :: "string option"
  replacement_part_number :: "string option"
  replaces_id :: "nat option"

text \<open>The table \<open>parts\<close> in row order, the names of its columns (what
  \<open>PRAGMA table_info(parts)\<close> lists) and the largest id that \<open>AUTOINCREMENT\<close> has
  given out.\<close>

record store =
  parts :: "Part list"
  parts_columns :: "string list"
  parts_seq :: nat

text \<open>The primary key \<open>id\<close> and the constraint \<open>UNIQUE(part_number, diagram_id)\<close>.\<close>

definition unique_ids :: "store \<Rightarrow> bool" where
  "unique_ids db = distinct (map id_col (parts db))"



section \<open>The replacement-part merge\<close>

text \<open>
  \<open>UPDATE parts SET replacement_part_number = (SELECT replacement.part_number FROM parts
  replacement WHERE replacement.replaces_id = parts.id) WHERE id IN (SELECT replaces_id
  FROM parts WHERE replaces_id IS NOT NULL)\<close>. The scalar subquery takes the first row
  that refers to the updated one.
\<close>

definition replacement_for :: "Part list \<Rightarrow> nat \<Rightarrow> string option" where
  "replacement_for rows i =
     map_option part_number (find (\<lambda>replacement. replaces_id replacement = Some i) rows)"

definition update_replaced :: "Part list \<Rightarrow> Part list" where
  "update_replaced rows =
     map (\<lambda>r. if Some (id_col r) \<in> set (map replaces_id rows)
               then r\<lparr>replacement_part_number := replacement_for rows (id_col r)\<rparr>
               else r) rows"

text \<open>\<open>DELETE FROM parts WHERE replaces_id IS NOT NULL\<close>\<close>

definition delete_replacements :: "Part list \<Rightarrow> Part list" where
  "delete_replacements rows = filter (\<lambda>r. replaces_id r = None) rows"

text \<open>\<open>ALTER TABLE parts DROP COLUMN replaces_id\<close>\<close>

definition drop_replaces_id :: "store \<Rightarrow> store" where
  "drop_replaces_id db =
     db\<lparr>parts := map (\<lambda>r. r\<lparr>replaces_id := None\<rparr>) (parts db),
        parts_columns := filter (\<lambda>c. c \<noteq> ''replaces_id'') (parts_columns db)\<rparr>"

definition migrateReplacesIdToReplacementPartNumber :: "store \<Rightarrow> string list \<Rightarrow> store" where
  "migrateReplacesIdToReplacementPartNumber client partsColumns =
     (if ''replaces_id'' \<notin> set partsColumns then client
      else (let hasReplacementRows = (length (filter (\<lambda>r. replaces_id r \<noteq> None) (parts client)) > 0)
            in drop_replaces_id
                 (if hasReplacementRows
                  then client\<lparr>parts := delete_replacements (update_replaced (parts client))\<rparr>
                  else client)))"

text \<open>One run of the pass, as \<open>runMigrations\<close> makes it: \<open>partsColumns\<close> is read from the
  table first.\<close>

definition merge_pass :: "store \<Rightarrow> store" where
  "merge_pass client = migrateReplacesIdToReplacementPartNumber client (parts_columns client)"

text \<open>A row with the columns the examples do not need left empty.\<close>

definition mk_part :: "nat \<Rightarrow> string \<Rightarrow> string \<Rightarrow> string option \<Rightarrow> nat option \<Rightarrow> Part" where
  "mk_part i pn diagram detail repl =
     \<lparr>id_col = i, detail_page_id = detail, part_number = pn, pnc_col = None,
      description_col = None, ref_number = None, quantity_col = None, spec_col = None,
      notes_col = None, color_col = None, model_date_range = None, diagram_id = diagram,
      group_id = ''engine'', subgroup_id = Some diagram, replacement_part_number = None,
      replaces_id = repl\<rparr>"

text \<open>A chain of supersessions: part 11 replaces part 10, which replaces part 5.\<close>

definition chain_store :: store where
  "chain_store =
     \<lparr>parts = [mk_part 5 ''MD000005'' ''engine/pump'' None None,
               mk_part 10 ''MD000010'' ''engine/pump'' None (Some 5),
               mk_part 11 ''MD999999'' ''engine/pump'' None (Some 10)],
      parts_columns = [''id'', ''part_number'', ''diagram_id'', ''replaces_id''],
      parts_seq = 11\<rparr>"

text \<open>The example of the specification: part 11 replaces part 10.\<close>

definition pair_store :: store where
  "pair_store =
     \<lparr>parts = [mk_part 10 ''MD000010'' ''engine/pump'' None None,
               mk_part 11 ''MD999999'' ''engine/pump'' None (Some 10)],
      parts_columns = [''id'', ''part_number'', ''diagram_id'', ''replaces_id''],
      parts_seq = 11\<rparr>"

lemma replaces_id_None_upd: "replaces_id (r::Part) = None \<Longrightarrow> r\<lparr>replaces_id := None\<rparr> = r"
  by (cases r) simp

lemma merge_pass_parts:
  assumes "''replaces_id'' \<in> set (parts_columns db)" and "\<exists>r \<in> set (parts db). replaces_id r \<noteq> None"
  shows "parts (merge_pass db)
           = map (\<lambda>r. r\<lparr>replaces_id := None\<rparr>) (delete_replacements (update_replaced (parts db)))"
proof -
  from assms(2) have "filter (\<lambda>r. replaces_id r \<noteq> None) (parts db) \<noteq> []"
    by (simp add: filter_empty_conv)
  hence "length (filter (\<lambda>r. replaces_id r \<noteq> None) (parts db)) > 0" by simp
  thus ?thesis using assms(1)
    by (simp add: merge_pass_def migrateReplacesIdToReplacementPartNumber_def drop_replaces_id_def Let_def)
qed

lemma merge_pass_origin:
  assumes "''replaces_id'' \<in> set (parts_columns db)" and "\<exists>r \<in> set (parts db). replaces_id r \<noteq> None"
    and "r' \<in> set (parts (merge_pass db))"
  shows "\<exists>r \<in> set (parts db). replaces_id r = None \<and> id_col r' = id_col r
           \<and> (r' = r \<or> r' = r\<lparr>replacement_part_number := replacement_for (parts db) (id_col r)\<rparr>)"
proof -
  from assms(3) obtain u where u: "u \<in> set (update_replaced (parts db))" "replaces_id u = None"
      "r' = u\<lparr>replaces_id := None\<rparr>"
    unfolding merge_pass_parts[OF assms(1,2)] delete_replacements_def by auto
  from u(2,3) have r': "r' = u" by (simp add: replaces_id_None_upd)
  from u(1) obtain r where r: "r \<in> set (parts db)"
      "u = r \<or> u = r\<lparr>replacement_part_number := replacement_for (parts db) (id_col r)\<rparr>"
    unfolding update_replaced_def by (auto split: if_splits)
  from r(2) u(2) have "replaces_id r = None \<and> id_col u = id_col r" by auto
  with r r' show ?thesis by blast
qed

lemma unique_id_eq:
  assumes "distinct (map id_col rows)" "r \<in> set rows" "q \<in> set rows" "id_col r = id_col q"
  shows "r = q"
  using assms by (meson distinct_map inj_onD)

lemma merge_pass_idem: "merge_pass (merge_pass db) = merge_pass db"
proof -
  have "''replaces_id'' \<notin> set (parts_columns (merge_pass db))"
    by (simp add: merge_pass_def migrateReplacesIdToReplacementPartNumber_def drop_replaces_id_def Let_def)
  thus ?thesis
    by (simp add: merge_pass_def[of "merge_pass db"] migrateReplacesIdToReplacementPartNumber_def)
qed

lemma merge_pass_no_refs:
  assumes "\<forall>r \<in> set (parts db). replaces_id r = None"
  shows "parts (merge_pass db) = parts db"
proof -
  from assms have f: "filter (\<lambda>r. \<exists>y. replaces_id r = Some y) (parts db) = []"
    by (simp add: filter_empty_conv)
  have m: "map (\<lambda>r. r\<lparr>replaces_id := None\<rparr>) (parts db) = parts db"
    using assms by (intro map_idI) (simp add: replaces_id_None_upd)
  show ?thesis
    by (simp add: merge_pass_def migrateReplacesIdToReplacementPartNumber_def drop_replaces_id_def Let_def f m)
qed

text \<open>
  Claim C7, as amended. In a store whose table \<open>parts\<close> still has the column
  \<open>replaces_id\<close> and unique ids, let Part A carry no "replaces" reference itself and
  let Part B, with \<open>part_number\<close> "MD999999", be the first row that carries a
  "replaces" reference to A. After one run of the pass A's \<open>replacement_part_number\<close>
  is "MD999999", no row has B's id, and no row carries a "replaces" reference. Running
  the pass again changes nothing, and a run on a store where no row carries a "replaces"
  reference leaves the rows as they are.
\<close>

theorem replacement_merge_first_reference:
  "(''replaces_id'' \<in> set (parts_columns db) \<and> unique_ids db
      \<and> a \<in> set (parts db) \<and> replaces_id a = None
      \<and> find (\<lambda>q. replaces_id q = Some (id_col a)) (parts db) = Some b
      \<and> part_number b = ''MD999999'' \<longrightarrow>
      a\<lparr>replacement_part_number := Some ''MD999999''\<rparr> \<in> set (parts (merge_pass db))
      \<and> (\<forall>r \<in> set (parts (merge_pass db)).
            id_col r = id_col a \<longrightarrow> replacement_part_number r = Some ''MD999999'')
      \<and> id_col b \<notin> set (map id_col (parts (merge_pass db)))
      \<and> (\<forall>r \<in> set (parts (merge_pass db)). replaces_id r = None))
   \<and> merge_pass (merge_pass db) = merge_pass db
   \<and> ((\<forall>r \<in> set (parts db). replaces_id r = None) \<longrightarrow> parts (merge_pass db) = parts db)"
proof (intro conjI impI)
  assume h: "''replaces_id'' \<in> set (parts_columns db) \<and> unique_ids db
      \<and> a \<in> set (parts db) \<and> replaces_id a = None
      \<and> find (\<lambda>q. replaces_id q = Some (id_col a)) (parts db) = Some b
      \<and> part_number b = ''MD999999''"
  hence col: "''replaces_id'' \<in> set (parts_columns db)" and a: "a \<in> set (parts db)" "replaces_id a = None"
    and fb: "find (\<lambda>q. replaces_id q = Some (id_col a)) (parts db) = Some b"
    and pn: "part_number b = ''MD999999''" and d: "distinct (map id_col (parts db))"
    by (simp_all add: unique_ids_def)
  from fb have b: "b \<in> set (parts db)" "replaces_id b = Some (id_col a)"
    by (auto simp: find_Some_iff)
  hence ex: "\<exists>r \<in> set (parts db). replaces_id r \<noteq> None" by auto
  have rf: "replacement_for (parts db) (id_col a) = Some ''MD999999''"
    by (simp add: replacement_for_def fb pn)
  have ref: "Some (id_col a) \<in> set (map replaces_id (parts db))" using b by force
  have "(\<lambda>r. if Some (id_col r) \<in> set (map replaces_id (parts db))
               then r\<lparr>replacement_part_number := replacement_for (parts db) (id_col r)\<rparr>
               else r) a \<in> set (update_replaced (parts db))"
    unfolding update_replaced_def set_map using a(1) by (rule imageI)
  hence "a\<lparr>replacement_part_number := Some ''MD999999''\<rparr> \<in> set (update_replaced (parts db))"
    using ref rf by simp
  hence "a\<lparr>replacement_part_number := Some ''MD999999''\<rparr>
           \<in> set (delete_replacements (update_replaced (parts db)))"
    using a(2) by (simp add: delete_replacements_def)
  hence "(a\<lparr>replacement_part_number := Some ''MD999999''\<rparr>)\<lparr>replaces_id := None\<rparr>
           \<in> set (parts (merge_pass db))"
    unfolding merge_pass_parts[OF col ex] by (simp add: image_iff) blast
  moreover have "(a\<lparr>replacement_part_number := Some ''MD999999''\<rparr>)\<lparr>replaces_id := None\<rparr>
      = a\<lparr>replacement_part_number := Some ''MD999999''\<rparr>"
    using a(2) by (intro replaces_id_None_upd) simp
  ultimately show "a\<lparr>replacement_part_number := Some ''MD999999''\<rparr> \<in> set (parts (merge_pass db))"
    by (simp only:)
  show "\<forall>r \<in> set (parts (merge_pass db)).
            id_col r = id_col a \<longrightarrow> replacement_part_number r = Some ''MD999999''"
  proof (intro ballI impI)
    fix r assume r: "r \<in> set (parts (merge_pass db))" "id_col r = id_col a"
    from merge_pass_origin[OF col ex r(1)] obtain r0 where r0: "r0 \<in> set (parts db)"
      "id_col r = id_col r0" by blast
    from unique_id_eq[OF d r0(1) a(1)] r0(2) r(2) have "r0 = a" by simp
    from r(1) have "r \<in> (\<lambda>r. r\<lparr>replaces_id := None\<rparr>) ` set (delete_replacements (update_replaced (parts db)))"
      unfolding merge_pass_parts[OF col ex] by simp
    then obtain u where u: "u \<in> set (update_replaced (parts db))" "replaces_id u = None"
        "r = u\<lparr>replaces_id := None\<rparr>"
      by (auto simp: delete_replacements_def)
    hence ru: "r = u" by (simp add: replaces_id_None_upd)
    from u(1) obtain q where q: "q \<in> set (parts db)"
       "u = (if Some (id_col q) \<in> set (map replaces_id (parts db))
             then q\<lparr>replacement_part_number := replacement_for (parts db) (id_col q)\<rparr> else q)"
      unfolding update_replaced_def by auto
    have "id_col u = id_col q" using q(2) by (simp split: if_splits)
    with ru r(2) have "id_col q = id_col a" by simp
    from unique_id_eq[OF d q(1) a(1) this] have qa: "q = a" .
    from q(2) qa ru rf ref have "r = a\<lparr>replacement_part_number := Some ''MD999999''\<rparr>" by simp
    thus "replacement_part_number r = Some ''MD999999''" by simp
  qed
  show "id_col b \<notin> set (map id_col (parts (merge_pass db)))"
  proof
    assume "id_col b \<in> set (map id_col (parts (merge_pass db)))"
    then obtain r where r: "r \<in> set (parts (merge_pass db))" "id_col r = id_col b" by auto
    from merge_pass_origin[OF col ex r(1)] obtain r0 where r0: "r0 \<in> set (parts db)"
      "replaces_id r0 = None" "id_col r = id_col r0" by blast
    from unique_id_eq[OF d r0(1) b(1)] r0(3) r(2) have "r0 = b" by simp
    with r0(2) b(2) show False by simp
  qed
  show "\<forall>r \<in> set (parts (merge_pass db)). replaces_id r = None"
    unfolding merge_pass_parts[OF col ex] by simp
next
  show "merge_pass (merge_pass db) = merge_pass db" by (rule merge_pass_idem)
next
  assume "\<forall>r \<in> set (parts db). replaces_id r = None"
  thus "parts (merge_pass db) = parts db" by (rule merge_pass_no_refs)
qed

theorem replacement_merge_first_reference_witness:
  "''replaces_id'' \<in> set (parts_columns pair_store) \<and> unique_ids pair_store
   \<and> mk_part 10 ''MD000010'' ''engine/pump'' None None \<in> set (parts pair_store)
   \<and> replaces_id (mk_part 10 ''MD000010'' ''engine/pump'' None None) = None
   \<and> find (\<lambda>q. replaces_id q = Some (id_col (mk_part 10 ''MD000010'' ''engine/pump'' None None)))
        (parts pair_store) = Some (mk_part 11 ''MD999999'' ''engine/pump'' None (Some 10))
   \<and> part_number (mk_part 11 ''MD999999'' ''engine/pump'' None (Some 10)) = ''MD999999''
   \<and> (mk_part 10 ''MD000010'' ''engine/pump'' None None)\<lparr>replacement_part_number := Some ''MD999999''\<rparr>
        \<in> set (parts (merge_pass pair_store))
   \<and> id_col (mk_part 11 ''MD999999'' ''engine/pump'' None (Some 10))
        \<notin> set (map id_col (parts (merge_pass pair_store)))
   \<and> merge_pass (merge_pass pair_store) = merge_pass pair_store
   \<and> parts (merge_pass pair_store)
        = [(mk_part 10 ''MD000010'' ''engine/pump'' None None)\<lparr>replacement_part_number := Some ''MD999999''\<rparr>]"
proof -
  let ?A = "mk_part 10 ''MD000010'' ''engine/pump'' None None"
  let ?B = "mk_part 11 ''MD999999'' ''engine/pump'' None (Some 10)"
  have h: "''replaces_id'' \<in> set (parts_columns pair_store) \<and> unique_ids pair_store
      \<and> ?A \<in> set (parts pair_store) \<and> replaces_id ?A = None
      \<and> find (\<lambda>q. replaces_id q = Some (id_col ?A)) (parts pair_store) = Some ?B
      \<and> part_number ?B = ''MD999999''"
    by code_simp
  have e: "parts (merge_pass pair_store) = [?A\<lparr>replacement_part_number := Some ''MD999999''\<rparr>]"
    by code_simp
  from replacement_merge_first_reference[of pair_store ?A ?B] h e show ?thesis by blast
qed

text \<open>
  The claim as stated fails where Part A carries a "replaces" reference itself: the pass
  deletes every row that carries one. In the chain 11 replaces 10 replaces 5, the row with
  id 10 is gone after the pass, and the part number of 11 is recorded nowhere.
\<close>

theorem replacement_merge_chain_counterexample:
  "''replaces_id'' \<in> set (parts_columns chain_store)
   \<and> mk_part 10 ''MD000010'' ''engine/pump'' None (Some 5) \<in> set (parts chain_store)
   \<and> mk_part 11 ''MD999999'' ''engine/pump'' None (Some 10) \<in> set (parts chain_store)
   \<and> replaces_id (mk_part 11 ''MD999999'' ''engine/pump'' None (Some 10))
        = Some (id_col (mk_part 10 ''MD000010'' ''engine/pump'' None (Some 5)))
   \<and> part_number (mk_part 11 ''MD999999'' ''engine/pump'' None (Some 10)) = ''MD999999''
   \<and> map id_col (parts (merge_pass chain_store)) = [5]
   \<and> map replacement_part_number (parts (merge_pass chain_store)) = [Some ''MD000010'']"
  by code_simp

section \<open>slugify and parseDetailListSections\<close>

text \<open>
  \<open>slugify\<close> walks its text by code point and looks Cyrillic letters up, so a heading
  is a list of code points here; \<open>U\<close> turns a literal into one.
\<close>

type_synonym ustring = "nat list"

definition U :: "string \<Rightarrow> ustring" where
  "U s = map of_char s"

text \<open>The table \<open>cyrillicMap\<close> of \<open>slugify\<close>, by code point, in the order of the source.\<close>

definition cyrillicMap :: "(nat \<times> string) list" where
  "cyrillicMap =
     [(0x430, ''a''), (0x431, ''b''), (0x432, ''v''), (0x433, ''g''), (0x434, ''d''), (0x435, ''e''),
      (0x451, ''e''), (0x436, ''zh''), (0x437, ''z''), (0x438, ''i''), (0x439, ''y''), (0x43A, ''k''),
      (0x43B, ''l''), (0x43C, ''m''), (0x43D, ''n''), (0x43E, ''o''), (0x43F, ''p''), (0x440, ''r''),
      (0x441, ''s''), (0x442, ''t''), (0x443, ''u''), (0x444, ''f''), (0x445, ''kh''), (0x446, ''ts''),
      (0x447, ''ch''), (0x448, ''sh''), (0x449, ''shch''), (0x44A, ''''), (0x44B, ''y''), (0x44C, ''''),
      (0x44D, ''e''), (0x44E, ''yu''), (0x44F, ''ya''), (0x410, ''a''), (0x411, ''b''), (0x412, ''v''),
      (0x413, ''g''), (0x414, ''d''), (0x415, ''e''), (0x401, ''e''), (0x416, ''zh''), (0x417, ''z''),
      (0x418, ''i''), (0x419, ''y''), (0x41A, ''k''), (0x41B, ''l''), (0x41C, ''m''), (0x41D, ''n''),
      (0x41E, ''o''), (0x41F, ''p''), (0x420, ''r''), (0x421, ''s''), (0x422, ''t''), (0x423, ''u''),
      (0x424, ''f''), (0x425, ''kh''), (0x426, ''ts''), (0x427, ''ch''), (0x428, ''sh''), (0x429, ''shch''),
      (0x42A, ''''), (0x42B, ''y''), (0x42C, ''''), (0x42D, ''e''), (0x42E, ''yu''), (0x42F, ''ya'')]"

text \<open>\<open>cyrillicMap[char] ?? char\<close>\<close>

definition transliterate :: "nat \<Rightarrow> ustring" where
  "transliterate c = (case map_of cyrillicMap c of Some latin \<Rightarrow> U latin | None \<Rightarrow> [c])"

text \<open>
  \<open>toLowerCase\<close> by code point. Beyond A-Z, the two code points whose lower case has an
  ASCII letter are written out (U+0130 and the Kelvin sign U+212A); any other code point
  stands for its lower case, which like itself is outside a-z and 0-9, all that the next
  step of \<open>slugify\<close> looks at.
\<close>

definition toLowerCase_cp :: "nat \<Rightarrow> ustring" where
  "toLowerCase_cp c =
     (if 0x41 \<le> c \<and> c \<le> 0x5A then [c + 0x20]
      else if c = 0x130 then [0x69, 0x307]
      else if c = 0x212A then [0x6B]
      else [c])"

text \<open>\<open>[a-z0-9]\<close>\<close>

definition is_slug_char :: "nat \<Rightarrow> bool" where
  "is_slug_char c = ((0x61 \<le> c \<and> c \<le> 0x7A) \<or> (0x30 \<le> c \<and> c \<le> 0x39))"

text \<open>\<open>replace(/[^a-z0-9]+/g, "-")\<close>; \<open>in_run\<close> says that the run of other characters
  before this one has its dash already.\<close>

fun dash_runs :: "bool \<Rightarrow> ustring \<Rightarrow> ustring" where
  "dash_runs in_run [] = []"
| "dash_runs in_run (c # s) =
     (if is_slug_char c then c # dash_runs False s
      else if in_run then dash_runs True s
      else 0x2D # dash_runs True s)"

text \<open>\<open>replace(/-+/g, "-")\<close>\<close>

fun collapse_dashes :: "bool \<Rightarrow> ustring \<Rightarrow> ustring" where
  "collapse_dashes in_run [] = []"
| "collapse_dashes in_run (c # s) =
     (if c \<noteq> 0x2D then c # collapse_dashes False s
      else if in_run then collapse_dashes True s
      else 0x2D # collapse_dashes True s)"

text \<open>\<open>replace(/^-|-$/g, "")\<close>: one dash at the start and one at the end go.\<close>

definition trim_dash :: "ustring \<Rightarrow> ustring" where
  "trim_dash s =
     (let s1 = (case s of [] \<Rightarrow> [] | c # t \<Rightarrow> if c = 0x2D then t else s)
      in if s1 \<noteq> [] \<and> last s1 = 0x2D then butlast s1 else s1)"

definition slugify :: "ustring \<Rightarrow> ustring" where
  "slugify text =
     (let result = concat (map transliterate text)
      in trim_dash (collapse_dashes False (dash_runs False (concat (map toLowerCase_cp result)))))"

text \<open>
  One \<open>td.detail-list\<close> element as \<open>parseDetailListSections\<close> reads it: the trimmed text
  of its first \<open>h4\<close> (empty when it has none), the absolute URL of its diagram image if
  it has one, and the id matched in the \<open>href\<close> of each of its \<open>a\<close> and \<open>area\<close>
  elements that has one, in document order.
\<close>

record td_detail_list =
  td_heading :: ustring
  td_imageUrl :: "string option"
  td_hrefIds :: "string list"

record DetailListSection =
  heading :: ustring
  slug :: ustring
  imageUrl :: "string option"
  detailPageIds :: "string list"

text \<open>\<open>Array.from\<close> of the \<open>Set\<close> the ids were added to: first occurrences, in order.\<close>

definition set_in_order :: "string list \<Rightarrow> string list" where
  "set_in_order ids = fold (\<lambda>x acc. if x \<in> set acc then acc else acc @ [x]) ids []"

fun parseDetailListSections :: "td_detail_list list \<Rightarrow> DetailListSection list" where
  "parseDetailListSections [] = []"
| "parseDetailListSections (td # tds) =
     (if td_heading td = [] then parseDetailListSections tds
      else if slugify (td_heading td) = [] then parseDetailListSections tds
      else \<lparr>heading = td_heading td, slug = slugify (td_heading td),
             imageUrl = td_imageUrl td, detailPageIds = set_in_order (td_hrefIds td)\<rparr>
           # parseDetailListSections tds)"

text \<open>Headings for the examples: two that differ in letter case only, one without a
  letter or digit, and one in Cyrillic.\<close>

definition td_of :: "string \<Rightarrow> td_detail_list" where
  "td_of h = \<lparr>td_heading = U h, td_imageUrl = None, td_hrefIds = [''723107'', ''723115'', ''723107'']\<rparr>"

text \<open>The two tests of \<open>parseDetailListSections\<close> that skip a section, as a predicate of
  the heading, and the text that \<open>slugify\<close> forms before it replaces characters.\<close>

definition kept_heading :: "ustring \<Rightarrow> bool" where
  "kept_heading h = (h \<noteq> [] \<and> slugify h \<noteq> [])"

definition lowered :: "ustring \<Rightarrow> ustring" where
  "lowered h = concat (map toLowerCase_cp (concat (map transliterate h)))"

lemmas slug_eval = slugify_def transliterate_def cyrillicMap_def U_def toLowerCase_cp_def
  is_slug_char_def trim_dash_def Let_def

lemma parse_headings:
  "map heading (parseDetailListSections tds) = filter kept_heading (map td_heading tds)"
  by (induction tds) (simp_all add: kept_heading_def)

lemma parse_slugs:
  "map slug (parseDetailListSections tds) = map slugify (filter kept_heading (map td_heading tds))"
  by (induction tds) (simp_all add: kept_heading_def)

lemma parse_section:
  "s \<in> set (parseDetailListSections tds) \<Longrightarrow>
     slug s = slugify (heading s) \<and> slug s \<noteq> [] \<and> heading s \<noteq> []"
  by (induction tds) (auto split: if_splits)

lemma length_filter_eq_iff: "(length (filter P xs) = length xs) = (\<forall>x \<in> set xs. P x)"
proof (induction xs)
  case Nil
  show ?case by simp
next
  case (Cons x xs)
  have "length (filter P xs) \<le> length xs" by (rule length_filter_le)
  hence "length (filter P xs) \<noteq> Suc (length xs)" by linarith
  with Cons show ?case by auto
qed

lemma parse_length:
  "length (parseDetailListSections tds) \<le> length tds
   \<and> ((length (parseDetailListSections tds) = length tds)
        = (\<forall>td \<in> set tds. kept_heading (td_heading td)))"
proof -
  have "length (parseDetailListSections tds) = length (map heading (parseDetailListSections tds))"
    by simp
  also have "\<dots> = length (filter kept_heading (map td_heading tds))" by (simp only: parse_headings)
  finally have l: "length (parseDetailListSections tds) = length (filter kept_heading (map td_heading tds))" .
  have "length (filter kept_heading (map td_heading tds)) \<le> length (map td_heading tds)"
    by (rule length_filter_le)
  moreover have "(length (filter kept_heading (map td_heading tds)) = length (map td_heading tds))
      = (\<forall>h \<in> set (map td_heading tds). kept_heading h)"
    by (rule length_filter_eq_iff)
  ultimately show ?thesis unfolding l by simp
qed

lemma dash_runs_none:
  "\<forall>c \<in> set s. \<not> is_slug_char c \<Longrightarrow>
     dash_runs True s = [] \<and> dash_runs False s = (if s = [] then [] else [0x2D])"
  by (induction s) auto

lemma dash_runs_keeps: "c \<in> set s \<Longrightarrow> is_slug_char c \<Longrightarrow> c \<in> set (dash_runs b s)"
  by (induction s arbitrary: b) auto

lemma collapse_keeps: "c \<in> set s \<Longrightarrow> c \<noteq> 0x2D \<Longrightarrow> c \<in> set (collapse_dashes b s)"
  by (induction s arbitrary: b) auto

lemma trim_keeps:
  assumes "c \<in> set s" "c \<noteq> 0x2D"
  shows "c \<in> set (trim_dash s)"
proof -
  define s1 where "s1 = (case s of [] \<Rightarrow> [] | d # t \<Rightarrow> if d = 0x2D then t else s)"
  have c1: "c \<in> set s1" using assms by (cases s) (auto simp: s1_def)
  have "c \<in> set (if s1 \<noteq> [] \<and> last s1 = 0x2D then butlast s1 else s1)"
  proof (cases "s1 \<noteq> [] \<and> last s1 = 0x2D")
    case True
    hence "s1 = butlast s1 @ [0x2D]" by (metis append_butlast_last_id)
    with c1 assms(2) have "c \<in> set (butlast s1)" by (metis Un_iff empty_iff empty_set set_ConsD set_append)
    with True show ?thesis by simp
  next
    case False
    with c1 show ?thesis by auto
  qed
  moreover have "trim_dash s = (if s1 \<noteq> [] \<and> last s1 = 0x2D then butlast s1 else s1)"
    unfolding trim_dash_def Let_def s1_def by (rule refl)
  ultimately show ?thesis by (simp only:)
qed

lemma slug_char_not_dash: "is_slug_char c \<Longrightarrow> c \<noteq> 0x2D"
  by (auto simp: is_slug_char_def)

lemma slugify_empty_iff: "(slugify h = []) = (\<forall>c \<in> set (lowered h). \<not> is_slug_char c)"
proof
  assume e: "slugify h = []"
  show "\<forall>c \<in> set (lowered h). \<not> is_slug_char c"
  proof (intro ballI notI)
    fix c assume c: "c \<in> set (lowered h)" "is_slug_char c"
    from dash_runs_keeps[OF c] have "c \<in> set (dash_runs False (lowered h))" .
    from collapse_keeps[OF this slug_char_not_dash[OF c(2)]]
    have "c \<in> set (collapse_dashes False (dash_runs False (lowered h)))" .
    from trim_keeps[OF this slug_char_not_dash[OF c(2)]] have "c \<in> set (slugify h)"
      by (simp add: slugify_def lowered_def Let_def)
    with e show False by simp
  qed
next
  assume n: "\<forall>c \<in> set (lowered h). \<not> is_slug_char c"
  from dash_runs_none[OF this] have "dash_runs False (lowered h) = [] \<or> dash_runs False (lowered h) = [0x2D]"
    by (simp split: if_splits)
  hence "trim_dash (collapse_dashes False (dash_runs False (lowered h))) = []"
    by (auto simp: trim_dash_def)
  thus "slugify h = []" by (simp add: slugify_def lowered_def Let_def)
qed

text \<open>
  Claim C5, as amended. \<open>parseDetailListSections\<close> returns, in page order, one section
  for each \<open>td.detail-list\<close> whose heading is not empty and whose slug is not empty, so
  at most N sections for N headed sections, and N exactly when every heading keeps a
  letter of a-z or a digit after transliteration and lower-casing. Each slug returned is
  not empty and is \<open>slugify\<close> of its heading. The slugs are pairwise distinct exactly
  when \<open>slugify\<close> gives the kept headings pairwise distinct values: nothing makes the
  slugs of distinct headings distinct.
\<close>

theorem sections_kept_and_slugs:
  "map heading (parseDetailListSections tds) = filter kept_heading (map td_heading tds)
   \<and> (\<forall>s \<in> set (parseDetailListSections tds). slug s = slugify (heading s) \<and> slug s \<noteq> [])
   \<and> length (parseDetailListSections tds) \<le> length tds
   \<and> ((length (parseDetailListSections tds) = length tds)
        = (\<forall>td \<in> set tds. kept_heading (td_heading td)))
   \<and> distinct (map slug (parseDetailListSections tds))
        = distinct (map slugify (filter kept_heading (map td_heading tds)))
   \<and> (\<forall>h. kept_heading h = (h \<noteq> [] \<and> (\<exists>c \<in> set (lowered h). is_slug_char c)))"
proof (intro conjI)
  show "map heading (parseDetailListSections tds) = filter kept_heading (map td_heading tds)"
    by (rule parse_headings)
  show "\<forall>s \<in> set (parseDetailListSections tds). slug s = slugify (heading s) \<and> slug s \<noteq> []"
    using parse_section by blast
  show "length (parseDetailListSections tds) \<le> length tds"
    using parse_length by blast
  show "(length (parseDetailListSections tds) = length tds)
        = (\<forall>td \<in> set tds. kept_heading (td_heading td))"
    using parse_length by blast
  show "distinct (map slug (parseDetailListSections tds))
        = distinct (map slugify (filter kept_heading (map td_heading tds)))"
    by (simp only: parse_slugs)
  show "\<forall>h. kept_heading h = (h \<noteq> [] \<and> (\<exists>c \<in> set (lowered h). is_slug_char c))"
    by (auto simp: kept_heading_def slugify_empty_iff)
qed

theorem sections_kept_and_slugs_witness:
  "map slug (parseDetailListSections [td_of ''ALL (LEFT SIDE)'', td_of ''ALL (RIGHT SIDE)''])
     = [U ''all-left-side'', U ''all-right-side'']
   \<and> length (parseDetailListSections [td_of ''ALL (LEFT SIDE)'', td_of ''ALL (RIGHT SIDE)'']) = 2
   \<and> distinct (map slug (parseDetailListSections [td_of ''ALL (LEFT SIDE)'', td_of ''ALL (RIGHT SIDE)'']))
   \<and> kept_heading (U ''ALL (LEFT SIDE)'') \<and> kept_heading (U ''ALL (RIGHT SIDE)'')
   \<and> slugify [0x421, 0x445, 0x435, 0x43C, 0x430, 0x20, 0x31] = U ''skhema-1''"
proof -
  let ?tds = "[td_of ''ALL (LEFT SIDE)'', td_of ''ALL (RIGHT SIDE)'']"
  have k: "kept_heading (U ''ALL (LEFT SIDE)'')" "kept_heading (U ''ALL (RIGHT SIDE)'')"
    by (simp_all add: kept_heading_def slug_eval)
  have s: "map slugify (filter kept_heading (map td_heading ?tds))
             = [U ''all-left-side'', U ''all-right-side'']"
    by (simp add: k td_of_def) (simp add: slug_eval)
  have d: "distinct [U ''all-left-side'', U ''all-right-side'']" by (simp add: U_def)
  have c: "slugify [0x421, 0x445, 0x435, 0x43C, 0x430, 0x20, 0x31] = U ''skhema-1''"
    by (simp add: slug_eval)
  have a: "\<forall>td \<in> set ?tds. kept_heading (td_heading td)" using k by (simp add: td_of_def)
  note inst = sections_kept_and_slugs[of ?tds]
  from inst a have l: "length (parseDetailListSections ?tds) = length ?tds" by blast
  from inst s d have dd: "distinct (map slug (parseDetailListSections ?tds))" by (simp only:)
  have ms: "map slug (parseDetailListSections ?tds) = [U ''all-left-side'', U ''all-right-side'']"
    using s by (simp only: parse_slugs)
  from ms l dd k c show ?thesis by simp
qed

text \<open>
  The claim as stated fails twice. Two sections whose headings differ in letter case only
  get the same slug, and a section whose heading has no letter or digit is skipped, so a
  page with N distinct headed sections can give fewer than N sections, or N sections
  with a slug twice.
\<close>

theorem sections_slug_collision_counterexample:
  "U ''LEFT SIDE'' \<noteq> [] \<and> U ''Left side'' \<noteq> [] \<and> U ''LEFT SIDE'' \<noteq> U ''Left side''
   \<and> map slug (parseDetailListSections [td_of ''LEFT SIDE'', td_of ''Left side''])
        = [U ''left-side'', U ''left-side'']
   \<and> \<not> distinct (map slug (parseDetailListSections [td_of ''LEFT SIDE'', td_of ''Left side'']))
   \<and> U ''***'' \<noteq> [] \<and> parseDetailListSections [td_of ''***''] = []"
proof -
  have s: "slugify (U ''LEFT SIDE'') = U ''left-side''" "slugify (U ''Left side'') = U ''left-side''"
    "slugify (U ''***'') = []"
    by (simp_all add: slug_eval)
  have u: "U ''left-side'' \<noteq> []" "U ''LEFT SIDE'' \<noteq> []" "U ''Left side'' \<noteq> []"
    "U ''LEFT SIDE'' \<noteq> U ''Left side''" "U ''***'' \<noteq> []"
    by (simp_all add: U_def)
  show ?thesis using u by (simp add: td_of_def s)
qed

section \<open>The cross-diagram repair script\<close>




text \<open>The \<open>Map\<close> \<open>detailIdToDiagrams\<close>, as the list of its entries in insertion order.
  \<open>map_push m k v\<close> is \<open>existing = m.get(k) || []; existing.push(v); m.set(k, existing)\<close>.\<close>

fun map_push :: "(string \<times> string list) list \<Rightarrow> string \<Rightarrow> string \<Rightarrow> (string \<times> string list) list" where
  "map_push [] k v = [(k, [v])]"
| "map_push ((k', vs) # m) k v =
     (if k' = k then (k', vs @ [v]) # m else (k', vs) # map_push m k v)"










































































lemma map_push_keys:
  "map fst (map_push m k v) = (if k \<in> set (map fst m) then map fst m else map fst m @ [k])"
  by (induction m k v rule: map_push.induct) auto

















section \<open>The resumable crawl scheduler\<close>

text \<open>A row of the table \<open>scrape_progress\<close> (the interface \<open>ScrapeProgress\<close>; the time
  stamp \<open>scraped_at\<close> is left out), and the table in insertion order.\<close>

datatype status = Pending | Completed | Failed

record ScrapeProgress =
  url :: string
  status :: status
  error :: "string option"

text \<open>Modelled from the spec: \<open>getUrlStatus\<close> of \<open>db/queries.ts\<close>, which is not among the
  sources: the CrawlState of the URL, if it has one.\<close>

definition getUrlStatus :: "ScrapeProgress list \<Rightarrow> string \<Rightarrow> ScrapeProgress option" where
  "getUrlStatus client u = find (\<lambda>r. url r = u) client"

text \<open>Modelled from the spec: \<open>markUrlPending\<close> of the absent \<open>db/queries.ts\<close>:
  "if \<open>url\<close> already has a CrawlState, it is a no-op; otherwise it is inserted as
  \<open>pending\<close>".\<close>

definition markUrlPending :: "ScrapeProgress list \<Rightarrow> string \<Rightarrow> ScrapeProgress list" where
  "markUrlPending client u =
     (if u \<in> set (map url client) then client
      else client @ [\<lparr>url = u, status = Pending, error = None\<rparr>])"

text \<open>Modelled from the spec: the state transition that \<open>markUrlCompleted\<close> and
  \<open>markUrlFailed\<close> of the absent \<open>db/queries.ts\<close> make: the CrawlState of the URL gets the
  status (and the reason), and a URL without one gets one.\<close>

definition set_status :: "ScrapeProgress list \<Rightarrow> string \<Rightarrow> status \<Rightarrow> string option \<Rightarrow> ScrapeProgress list" where
  "set_status client u st e =
     (if u \<in> set (map url client)
      then map (\<lambda>r. if url r = u then r\<lparr>status := st, error := e\<rparr> else r) client
      else client @ [\<lparr>url = u, status = st, error = e\<rparr>])"

text \<open>Modelled from the spec: \<open>markUrlCompleted\<close> of the absent \<open>db/queries.ts\<close>.\<close>

definition markUrlCompleted :: "ScrapeProgress list \<Rightarrow> string \<Rightarrow> ScrapeProgress list" where
  "markUrlCompleted client u = set_status client u Completed None"

text \<open>Modelled from the spec: \<open>markUrlFailed\<close> of the absent \<open>db/queries.ts\<close>.\<close>

definition markUrlFailed :: "ScrapeProgress list \<Rightarrow> string \<Rightarrow> string \<Rightarrow> ScrapeProgress list" where
  "markUrlFailed client u reason = set_status client u Failed (Some reason)"

text \<open>Modelled from the spec: \<open>getPendingUrls\<close> of the absent \<open>db/queries.ts\<close>: the URLs
  whose CrawlState is \<open>pending\<close>, in discovery order.\<close>

definition getPendingUrls :: "ScrapeProgress list \<Rightarrow> string list" where
  "getPendingUrls client = map url (filter (\<lambda>r. status r = Pending) client)"

text \<open>\<open>status?.status === "completed"\<close>\<close>

definition is_completed :: "ScrapeProgress list \<Rightarrow> string \<Rightarrow> bool" where
  "is_completed client u =
     (case getUrlStatus client u of None \<Rightarrow> False | Some r \<Rightarrow> status r = Completed)"

text \<open>
  What the scheduler sees of a page that was fetched: the links it yields, each with the
  frame number set (the categories of the index page, the result of \<open>parseCategoryPage\<close>
  for any other page), and whether the store takes the extracted records; when it does
  not, the write throws and the run ends there.
\<close>

record page =
  page_links :: "string list"
  store_accepts :: bool

datatype fetch_answer = Unreachable "string option" | Page page

text \<open>\<open>result.error || "Unknown error"\<close>: the error text of a failed fetch, which may
  be missing or empty.\<close>

definition error_or_unknown :: "string option \<Rightarrow> string" where
  "error_or_unknown e =
     (case e of None \<Rightarrow> ''Unknown error'' | Some t \<Rightarrow> if t = [] then ''Unknown error'' else t)"

text \<open>The network and the pages behind it: the answer to the \<open>n\<close>-th fetch, of a URL.\<close>

type_synonym world = "nat \<Rightarrow> string \<Rightarrow> fetch_answer"

text \<open>What a run did, in order: a page was fetched, the records of a page were persisted
  (\<open>processPage\<close> returned, or the loop of \<open>scrapeIndex\<close> over the categories ended),
  a URL was marked completed or failed, the store threw.\<close>

datatype event =
    Fetch string
  | Persisted string
  | MarkCompleted string
  | MarkFailed string
  | Threw string

text \<open>The fields of the class \<open>Scraper\<close> that the scheduler uses, with the store's table
  \<open>scrape_progress\<close> (\<open>client\<close>), the number of fetches made, the history of events, and
  whether the run is still going (no exception has ended it).\<close>

record Scraper =
  client :: "ScrapeProgress list"
  urlQueue :: "string list"
  processedCount :: nat
  fetches :: nat
  history :: "event list"
  running :: bool

text \<open>The loop over \<open>links\<close> at the end of \<open>processPage\<close> (lines 171-179).\<close>

fun queue_new_links :: "string list \<Rightarrow> Scraper \<Rightarrow> Scraper" where
  "queue_new_links [] s = s"
| "queue_new_links (linkWithFrame # links) s =
     queue_new_links links
       (case getUrlStatus (client s) linkWithFrame of
          None \<Rightarrow> s\<lparr>client := markUrlPending (client s) linkWithFrame,
                     urlQueue := urlQueue s @ [linkWithFrame]\<rparr>
        | Some st \<Rightarrow> s)"

text \<open>\<open>processPage\<close>: the records of the page are persisted, then its new links are
  queued. \<open>None\<close> when the store throws.\<close>

definition processPage :: "string \<Rightarrow> page \<Rightarrow> Scraper \<Rightarrow> Scraper option" where
  "processPage u p s =
     (if \<not> store_accepts p then None
      else Some ((queue_new_links (page_links p) s)
                   \<lparr>history := history (queue_new_links (page_links p) s) @ [Persisted u]\<rparr>))"

text \<open>One pass of the loop of \<open>processQueue\<close> (lines 122-144), for a queue that is not
  empty.\<close>

definition processQueue_pass :: "world \<Rightarrow> Scraper \<Rightarrow> Scraper" where
  "processQueue_pass w s =
     (case urlQueue s of
        [] \<Rightarrow> s
      | u # rest \<Rightarrow>
          (let s1 = s\<lparr>urlQueue := rest\<rparr>
           in if is_completed (client s1) u then s1
              else (let s2 = s1\<lparr>processedCount := processedCount s1 + 1,
                                 fetches := fetches s1 + 1,
                                 history := history s1 @ [Fetch u]\<rparr>
                    in case w (fetches s1) u of
                         Unreachable e \<Rightarrow>
                           s2\<lparr>client := markUrlFailed (client s2) u (error_or_unknown e),
                              history := history s2 @ [MarkFailed u]\<rparr>
                       | Page p \<Rightarrow>
                           (case processPage u p s2 of
                              None \<Rightarrow> s2\<lparr>history := history s2 @ [Threw u], running := False\<rparr>
                            | Some s3 \<Rightarrow>
                                s3\<lparr>client := markUrlCompleted (client s3) u,
                                   history := history s3 @ [MarkCompleted u]\<rparr>))))"

text \<open>\<open>processQueue\<close>: \<open>while (this.urlQueue.length > 0)\<close>. The first argument is the
  number of passes after which the process is terminated from outside, if the queue has
  not run empty and nothing was thrown before.\<close>

fun processQueue :: "nat \<Rightarrow> world \<Rightarrow> Scraper \<Rightarrow> Scraper" where
  "processQueue 0 w s = s"
| "processQueue (Suc n) w s =
     (if urlQueue s = [] \<or> \<not> running s then s
      else processQueue n w (processQueue_pass w s))"

text \<open>The loop of \<open>scrapeIndex\<close> over the categories (lines 108-116): the group is
  inserted, the URL marked pending and queued.\<close>

fun queue_categories :: "string list \<Rightarrow> Scraper \<Rightarrow> Scraper" where
  "queue_categories [] s = s"
| "queue_categories (catUrl # cats) s =
     queue_categories cats
       (s\<lparr>client := markUrlPending (client s) catUrl, urlQueue := urlQueue s @ [catUrl]\<rparr>)"

text \<open>\<open>scrapeIndex\<close> (lines 79-119), for the URL of the index page.\<close>

definition scrapeIndex :: "string \<Rightarrow> world \<Rightarrow> Scraper \<Rightarrow> Scraper" where
  "scrapeIndex indexUrl w s =
     (if is_completed (client s) indexUrl then s\<lparr>urlQueue := getPendingUrls (client s)\<rparr>
      else (let s1 = s\<lparr>client := markUrlPending (client s) indexUrl,
                        fetches := fetches s + 1,
                        history := history s @ [Fetch indexUrl]\<rparr>
            in case w (fetches s) indexUrl of
                 Unreachable e \<Rightarrow>
                   s1\<lparr>client := markUrlFailed (client s1) indexUrl (error_or_unknown e),
                      history := history s1 @ [MarkFailed indexUrl]\<rparr>
               | Page p \<Rightarrow>
                   (if \<not> store_accepts p
                    then s1\<lparr>history := history s1 @ [Threw indexUrl], running := False\<rparr>
                    else (let s2 = queue_categories (page_links p) s1
                          in s2\<lparr>client := markUrlCompleted (client s2) indexUrl,
                                history := history s2 @ [Persisted indexUrl, MarkCompleted indexUrl]\<rparr>))))"

text \<open>\<open>run\<close>, up to the end of \<open>processQueue\<close> (lines 57-68): a run resumes from the
  pending URLs if there are any, and starts from the index page otherwise.\<close>

definition run :: "string \<Rightarrow> nat \<Rightarrow> world \<Rightarrow> Scraper \<Rightarrow> Scraper" where
  "run indexUrl n w s =
     (let pendingUrls = getPendingUrls (client s);
          s1 = (if length pendingUrls > 0 then s\<lparr>urlQueue := pendingUrls\<rparr>
                else scrapeIndex indexUrl w s)
      in processQueue n w s1)"

text \<open>A new process: a new \<open>Scraper\<close> on the store as the last one left it.\<close>

definition new_Scraper :: "Scraper \<Rightarrow> Scraper" where
  "new_Scraper s = s\<lparr>urlQueue := [], processedCount := 0, running := True\<rparr>"

text \<open>A sequence of runs on one store, each in a new process and terminated after the
  given number of passes of the queue loop (if it has not ended before).\<close>

fun sessions :: "string \<Rightarrow> nat list \<Rightarrow> world \<Rightarrow> Scraper \<Rightarrow> Scraper" where
  "sessions indexUrl [] w s = s"
| "sessions indexUrl (n # ns) w s = sessions indexUrl ns w (run indexUrl n w (new_Scraper s))"

text \<open>A store before the first run, and a small site: the index links two categories,
  the first category links a detail page and the index, the second cannot be fetched.\<close>

definition fresh_Scraper :: Scraper where
  "fresh_Scraper = \<lparr>client = [], urlQueue = [], processedCount = 0, fetches = 0, history = [],
                     running = True\<rparr>"

definition small_site :: world where
  "small_site n u =
     (if u = ''/'' then Page \<lparr>page_links = [''/engine/'', ''/body/''], store_accepts = True\<rparr>
      else if u = ''/engine/'' then Page \<lparr>page_links = [''/engine/pump/'', ''/''], store_accepts = True\<rparr>
      else if u = ''/engine/pump/'' then Page \<lparr>page_links = [], store_accepts = True\<rparr>
      else Unreachable (Some ''timeout''))"

text \<open>
  For the proofs: what the history of a crawl must look like (\<open>hist_ok\<close>: an event
  \<open>MarkCompleted u\<close> comes right after \<open>Persisted u\<close>, and \<open>u\<close> is neither fetched nor
  processed after it), and the invariant of the scheduler for the set \<open>C0\<close> of URLs
  that were completed before the first run.
\<close>

definition hist_ok :: "event list \<Rightarrow> bool" where
  "hist_ok h =
     (\<forall>xs ys u. h = xs @ MarkCompleted u # ys \<longrightarrow>
        xs \<noteq> [] \<and> last xs = Persisted u \<and> Fetch u \<notin> set ys \<and> Persisted u \<notin> set ys)"

definition crawl_inv :: "string set \<Rightarrow> Scraper \<Rightarrow> bool" where
  "crawl_inv C0 s =
     (hist_ok (history s)
      \<and> distinct (map url (client s))
      \<and> (\<forall>u. u \<in> C0 \<or> MarkCompleted u \<in> set (history s) \<longrightarrow> is_completed (client s) u)
      \<and> (\<forall>u \<in> C0. Fetch u \<notin> set (history s) \<and> Persisted u \<notin> set (history s)))"

lemma find_append_url:
  "find P (xs @ ys) = (case find P xs of None \<Rightarrow> find P ys | Some x \<Rightarrow> Some x)"
  by (induction xs) auto

lemma find_None_url: "u \<notin> set (map url t) \<Longrightarrow> find (\<lambda>r. url r = u) t = None"
  by (induction t) auto

lemma find_Some_url: "u \<in> set (map url t) \<Longrightarrow> \<exists>r. find (\<lambda>r. url r = u) t = Some r \<and> url r = u"
  by (induction t) auto

lemma find_map_status:
  "find (\<lambda>r. url r = u) (map (\<lambda>r. if url r = v then r\<lparr>status := st, error := e\<rparr> else r) t)
     = map_option (\<lambda>r. if url r = v then r\<lparr>status := st, error := e\<rparr> else r)
         (find (\<lambda>r. url r = u) t)"
  by (induction t) auto

lemma is_completed_set_status:
  "is_completed (set_status t v st e) u = (if u = v then st = Completed else is_completed t u)"
proof (cases "v \<in> set (map url t)")
  case True
  from find_Some_url[OF True] obtain r where r: "find (\<lambda>r. url r = v) t = Some r" "url r = v" by blast
  show ?thesis
  proof (cases "u = v")
    case u: True
    thus ?thesis using True r
      by (simp add: is_completed_def getUrlStatus_def set_status_def find_map_status)
  next
    case u: False
    thus ?thesis using True
      by (cases "find (\<lambda>r. url r = u) t")
         (auto simp: is_completed_def getUrlStatus_def set_status_def find_map_status
               dest: find_Some_iff[THEN iffD1])
  qed
next
  case False
  thus ?thesis
    by (cases "find (\<lambda>r. url r = u) t")
       (auto simp: is_completed_def getUrlStatus_def set_status_def find_append_url find_None_url
             dest: find_Some_iff[THEN iffD1])
qed

lemma is_completed_markUrlCompleted:
  "is_completed (markUrlCompleted t v) u = (u = v \<or> is_completed t u)"
  by (simp add: markUrlCompleted_def is_completed_set_status)

lemma is_completed_markUrlFailed:
  "is_completed (markUrlFailed t v e) u = (u \<noteq> v \<and> is_completed t u)"
  by (simp add: markUrlFailed_def is_completed_set_status)

lemma is_completed_markUrlPending:
  "is_completed (markUrlPending t v) u = is_completed t u"
proof (cases "v \<in> set (map url t)")
  case True
  thus ?thesis by (simp add: markUrlPending_def)
next
  case False
  thus ?thesis
    by (cases "find (\<lambda>r. url r = u) t")
       (auto simp: is_completed_def getUrlStatus_def markUrlPending_def find_append_url find_None_url)
qed

lemma urls_set_status:
  "map url (set_status t v st e) = (if v \<in> set (map url t) then map url t else map url t @ [v])"
  by (auto simp: set_status_def)

lemma urls_markUrlPending:
  "map url (markUrlPending t v) = (if v \<in> set (map url t) then map url t else map url t @ [v])"
  by (auto simp: markUrlPending_def)

lemma distinct_set_status: "distinct (map url t) \<Longrightarrow> distinct (map url (set_status t v st e))"
  by (simp add: urls_set_status)

lemma distinct_markUrlPending: "distinct (map url t) \<Longrightarrow> distinct (map url (markUrlPending t v))"
  by (simp add: urls_markUrlPending)

lemma distinct_markUrlCompleted: "distinct (map url t) \<Longrightarrow> distinct (map url (markUrlCompleted t v))"
  by (simp add: markUrlCompleted_def distinct_set_status)

lemma distinct_markUrlFailed: "distinct (map url t) \<Longrightarrow> distinct (map url (markUrlFailed t v e))"
  by (simp add: markUrlFailed_def distinct_set_status)

lemma pending_not_completed:
  assumes "distinct (map url t)" "u \<in> set (getPendingUrls t)"
  shows "\<not> is_completed t u"
proof -
  from assms(2) obtain r where r: "r \<in> set t" "url r = u" "status r = Pending"
    by (auto simp: getPendingUrls_def)
  have "find (\<lambda>r. url r = u) t = Some r"
    using assms(1) r(1,2)
  proof (induction t)
    case Nil
    thus ?case by simp
  next
    case (Cons a t)
    thus ?case by (cases "a = r") force+
  qed
  thus ?thesis using r(3) by (simp add: is_completed_def getUrlStatus_def)
qed

lemma hist_ok_Nil: "hist_ok []"
  by (simp add: hist_ok_def)

lemma hist_ok_snoc:
  assumes "hist_ok h"
    and "\<forall>u. e = MarkCompleted u \<longrightarrow> h \<noteq> [] \<and> last h = Persisted u"
    and "\<forall>u. e = Fetch u \<or> e = Persisted u \<longrightarrow> MarkCompleted u \<notin> set h"
  shows "hist_ok (h @ [e])"
  unfolding hist_ok_def
proof (intro allI impI)
  fix xs ys u assume eq: "h @ [e] = xs @ MarkCompleted u # ys"
  show "xs \<noteq> [] \<and> last xs = Persisted u \<and> Fetch u \<notin> set ys \<and> Persisted u \<notin> set ys"
  proof (cases ys rule: rev_cases)
    case Nil
    with eq have "h = xs" "e = MarkCompleted u" by simp_all
    with assms(2) Nil show ?thesis by simp
  next
    case (snoc ys' y)
    with eq have h: "h = xs @ MarkCompleted u # ys'" and y: "y = e" by simp_all
    from assms(1) h have a: "xs \<noteq> [] \<and> last xs = Persisted u \<and> Fetch u \<notin> set ys' \<and> Persisted u \<notin> set ys'"
      unfolding hist_ok_def by blast
    from h have "MarkCompleted u \<in> set h" by simp
    with assms(3) have "e \<noteq> Fetch u \<and> e \<noteq> Persisted u" by blast
    with a snoc y show ?thesis by auto
  qed
qed

lemma queue_new_links_keeps:
  "history (queue_new_links links s) = history s
   \<and> running (queue_new_links links s) = running s
   \<and> fetches (queue_new_links links s) = fetches s
   \<and> (distinct (map url (client s)) \<longrightarrow> distinct (map url (client (queue_new_links links s))))
   \<and> (\<forall>u. is_completed (client (queue_new_links links s)) u = is_completed (client s) u)"
proof (induction links arbitrary: s)
  case Nil
  show ?case by simp
next
  case (Cons l links)
  show ?case
  proof (cases "getUrlStatus (client s) l")
    case None
    thus ?thesis
      using Cons[of "s\<lparr>client := markUrlPending (client s) l, urlQueue := urlQueue s @ [l]\<rparr>"]
      by (simp add: is_completed_markUrlPending distinct_markUrlPending)
  next
    case (Some st)
    thus ?thesis using Cons[of s] by simp
  qed
qed

lemma queue_categories_keeps:
  "history (queue_categories cats s) = history s
   \<and> running (queue_categories cats s) = running s
   \<and> (distinct (map url (client s)) \<longrightarrow> distinct (map url (client (queue_categories cats s))))
   \<and> (\<forall>u. is_completed (client (queue_categories cats s)) u = is_completed (client s) u)"
proof (induction cats arbitrary: s)
  case Nil
  show ?case by simp
next
  case (Cons c cats)
  show ?case
    using Cons[of "s\<lparr>client := markUrlPending (client s) c, urlQueue := urlQueue s @ [c]\<rparr>"]
    by (simp add: is_completed_markUrlPending distinct_markUrlPending)
qed

lemma inv_same:
  assumes "crawl_inv C0 s" "history s' = history s" "distinct (map url (client s'))"
    and "\<forall>v. is_completed (client s') v = is_completed (client s) v"
  shows "crawl_inv C0 s'"
  using assms by (simp add: crawl_inv_def)

lemma inv_step_failed:
  assumes "crawl_inv C0 s" "\<not> is_completed (client s) u"
    and "history s' = history s @ [Fetch u, MarkFailed u]"
    and "client s' = markUrlFailed t u e"
    and "distinct (map url t)" and "\<forall>v. is_completed t v = is_completed (client s) v"
  shows "crawl_inv C0 s'"
proof -
  from assms have nc: "u \<notin> C0" "MarkCompleted u \<notin> set (history s)"
    by (auto simp: crawl_inv_def)
  from assms(1) have h: "hist_ok (history s)" by (simp add: crawl_inv_def)
  have h1: "hist_ok (history s @ [Fetch u])" using nc by (intro hist_ok_snoc[OF h]) auto
  have h2: "hist_ok ((history s @ [Fetch u]) @ [MarkFailed u])" by (rule hist_ok_snoc[OF h1]) auto
  show ?thesis using assms nc h2
    by (auto simp: crawl_inv_def is_completed_markUrlFailed distinct_markUrlFailed)
qed

lemma inv_step_threw:
  assumes "crawl_inv C0 s" "\<not> is_completed (client s) u"
    and "history s' = history s @ [Fetch u, Threw u]"
    and "distinct (map url (client s'))"
    and "\<forall>v. is_completed (client s') v = is_completed (client s) v"
  shows "crawl_inv C0 s'"
proof -
  from assms have nc: "u \<notin> C0" "MarkCompleted u \<notin> set (history s)"
    by (auto simp: crawl_inv_def)
  from assms(1) have h: "hist_ok (history s)" by (simp add: crawl_inv_def)
  have h1: "hist_ok (history s @ [Fetch u])" using nc by (intro hist_ok_snoc[OF h]) auto
  have h3: "hist_ok ((history s @ [Fetch u]) @ [Threw u])" by (rule hist_ok_snoc[OF h1]) auto
  show ?thesis using assms nc h3 by (auto simp: crawl_inv_def)
qed

lemma inv_step_completed:
  assumes "crawl_inv C0 s" "\<not> is_completed (client s) u"
    and "history s' = history s @ [Fetch u, Persisted u, MarkCompleted u]"
    and "client s' = markUrlCompleted t u"
    and "distinct (map url t)" and "\<forall>v. is_completed t v = is_completed (client s) v"
  shows "crawl_inv C0 s'"
proof -
  from assms have nc: "u \<notin> C0" "MarkCompleted u \<notin> set (history s)"
    by (auto simp: crawl_inv_def)
  from assms(1) have h: "hist_ok (history s)" by (simp add: crawl_inv_def)
  have h1: "hist_ok (history s @ [Fetch u])" using nc by (intro hist_ok_snoc[OF h]) auto
  have h2: "hist_ok ((history s @ [Fetch u]) @ [Persisted u])" using nc by (intro hist_ok_snoc[OF h1]) auto
  have h3: "hist_ok (((history s @ [Fetch u]) @ [Persisted u]) @ [MarkCompleted u])"
    by (rule hist_ok_snoc[OF h2]) auto
  show ?thesis using assms nc h3
    by (auto simp: crawl_inv_def is_completed_markUrlCompleted distinct_markUrlCompleted)
qed

lemma inv_distinct: "crawl_inv C0 s \<Longrightarrow> distinct (map url (client s))"
  by (simp add: crawl_inv_def)

lemma processQueue_pass_inv:
  assumes "crawl_inv C0 s"
  shows "crawl_inv C0 (processQueue_pass w s)"
proof (cases "urlQueue s")
  case Nil
  thus ?thesis using assms by (simp add: processQueue_pass_def)
next
  case (Cons u rest)
  show ?thesis
  proof (cases "is_completed (client s) u")
    case True
    thus ?thesis using Cons inv_same[OF assms, of "s\<lparr>urlQueue := rest\<rparr>"] inv_distinct[OF assms]
      by (simp add: processQueue_pass_def)
  next
    case nc: False
    show ?thesis
    proof (cases "w (fetches s) u")
      case (Unreachable e)
      show ?thesis
        by (rule inv_step_failed[OF assms nc, where t = "client s" and e = "error_or_unknown e"])
           (simp_all add: processQueue_pass_def Cons nc Unreachable inv_distinct[OF assms])
    next
      case (Page p)
      show ?thesis
      proof (cases "store_accepts p")
        case False
        show ?thesis
          by (rule inv_step_threw[OF assms nc])
             (simp_all add: processQueue_pass_def Cons nc Page False processPage_def
                inv_distinct[OF assms])
      next
        case True
        let ?s2 = "s\<lparr>urlQueue := rest, processedCount := processedCount s + 1,
                     fetches := fetches s + 1, history := history s @ [Fetch u]\<rparr>"
        let ?q = "queue_new_links (page_links p) ?s2"
        note k = queue_new_links_keeps[of "page_links p" ?s2]
        show ?thesis
          by (rule inv_step_completed[OF assms nc, where t = "client ?q"])
             (insert k, simp_all add: processQueue_pass_def Cons nc Page True processPage_def
                inv_distinct[OF assms] Let_def)
      qed
    qed
  qed
qed

lemma processQueue_inv: "crawl_inv C0 s \<Longrightarrow> crawl_inv C0 (processQueue n w s)"
  by (induction n arbitrary: s) (simp_all add: processQueue_pass_inv)

lemma scrapeIndex_inv:
  assumes "crawl_inv C0 s"
  shows "crawl_inv C0 (scrapeIndex indexUrl w s)"
proof (cases "is_completed (client s) indexUrl")
  case True
  thus ?thesis using inv_same[OF assms, of "s\<lparr>urlQueue := getPendingUrls (client s)\<rparr>"]
      inv_distinct[OF assms]
    by (simp add: scrapeIndex_def)
next
  case nc: False
  note d = distinct_markUrlPending[OF inv_distinct[OF assms], of indexUrl]
  show ?thesis
  proof (cases "w (fetches s) indexUrl")
    case (Unreachable e)
    show ?thesis
      by (rule inv_step_failed[OF assms nc, where t = "markUrlPending (client s) indexUrl" and e = "error_or_unknown e"])
         (simp_all add: scrapeIndex_def nc Unreachable d is_completed_markUrlPending)
  next
    case (Page p)
    show ?thesis
    proof (cases "store_accepts p")
      case False
      show ?thesis
        by (rule inv_step_threw[OF assms nc])
           (simp_all add: scrapeIndex_def nc Page False d is_completed_markUrlPending)
    next
      case True
      let ?s1 = "s\<lparr>client := markUrlPending (client s) indexUrl, fetches := fetches s + 1,
                   history := history s @ [Fetch indexUrl]\<rparr>"
      let ?q = "queue_categories (page_links p) ?s1"
      note k = queue_categories_keeps[of "page_links p" ?s1]
      show ?thesis
        by (rule inv_step_completed[OF assms nc, where t = "client ?q"])
           (insert k d, simp_all add: scrapeIndex_def nc Page True is_completed_markUrlPending Let_def)
    qed
  qed
qed

lemma run_inv: "crawl_inv C0 s \<Longrightarrow> crawl_inv C0 (run indexUrl n w s)"
  using inv_same[of C0 s "s\<lparr>urlQueue := getPendingUrls (client s)\<rparr>"]
  by (auto simp: run_def Let_def crawl_inv_def[of C0 s] intro!: processQueue_inv scrapeIndex_inv)

lemma new_Scraper_inv: "crawl_inv C0 s \<Longrightarrow> crawl_inv C0 (new_Scraper s)"
  by (simp add: crawl_inv_def new_Scraper_def)

lemma sessions_inv: "crawl_inv C0 s \<Longrightarrow> crawl_inv C0 (sessions indexUrl ns w s)"
  by (induction ns arbitrary: s) (simp_all add: run_inv new_Scraper_inv)

lemma initial_inv:
  assumes "history s0 = []" "distinct (map url (client s0))"
  shows "crawl_inv {u. is_completed (client s0) u} s0"
  using assms by (simp add: crawl_inv_def hist_ok_Nil)

text \<open>
  Claim C1. Over any sequence of runs on one store, each terminated at any pass of the
  queue loop or ended by an exception of the store, and whatever the network answers:
  a URL is marked completed only right after its records were persisted (\<open>processPage\<close>
  returned, or the category loop of \<open>scrapeIndex\<close> ended), and after that it is never
  fetched or processed again; a URL that was completed before the first of the runs is
  never fetched or processed, and every URL marked completed stays completed. Within a
  run, the pass of \<open>processQueue\<close> at a completed URL only takes it off the queue. On a
  restart with pending URLs, the queue is exactly the pending URLs, none of them
  completed, and the store is untouched; with nothing pending and the index page
  completed, the run does nothing.
\<close>

theorem completed_only_after_processing:
  "(history s0 = [] \<and> distinct (map url (client s0)) \<longrightarrow>
      (\<forall>xs ys u. history (sessions indexUrl ns w s0) = xs @ MarkCompleted u # ys \<longrightarrow>
          xs \<noteq> [] \<and> last xs = Persisted u \<and> Fetch u \<notin> set ys \<and> Persisted u \<notin> set ys)
      \<and> (\<forall>u. is_completed (client s0) u \<longrightarrow>
            Fetch u \<notin> set (history (sessions indexUrl ns w s0))
            \<and> Persisted u \<notin> set (history (sessions indexUrl ns w s0))
            \<and> is_completed (client (sessions indexUrl ns w s0)) u)
      \<and> (\<forall>u. MarkCompleted u \<in> set (history (sessions indexUrl ns w s0)) \<longrightarrow>
            is_completed (client (sessions indexUrl ns w s0)) u))
   \<and> (is_completed (client s) u \<longrightarrow>
        processQueue_pass w (s\<lparr>urlQueue := u # rest\<rparr>) = s\<lparr>urlQueue := rest\<rparr>)
   \<and> (distinct (map url (client s)) \<and> getPendingUrls (client s) \<noteq> [] \<longrightarrow>
        urlQueue (run indexUrl 0 w (new_Scraper s)) = getPendingUrls (client s)
        \<and> (\<forall>v \<in> set (urlQueue (run indexUrl 0 w (new_Scraper s))). \<not> is_completed (client s) v)
        \<and> client (run indexUrl 0 w (new_Scraper s)) = client s
        \<and> history (run indexUrl 0 w (new_Scraper s)) = history s)
   \<and> (getPendingUrls (client s) = [] \<and> is_completed (client s) indexUrl \<longrightarrow>
        run indexUrl n w (new_Scraper s) = new_Scraper s)"
proof (intro conjI impI)
  assume h: "history s0 = [] \<and> distinct (map url (client s0))"
  let ?s = "sessions indexUrl ns w s0"
  from h have "crawl_inv {u. is_completed (client s0) u} s0" by (intro initial_inv) simp_all
  hence inv: "crawl_inv {u. is_completed (client s0) u} ?s" by (rule sessions_inv)
  from inv have "hist_ok (history ?s)" by (simp add: crawl_inv_def)
  thus "\<forall>xs ys u. history ?s = xs @ MarkCompleted u # ys \<longrightarrow>
          xs \<noteq> [] \<and> last xs = Persisted u \<and> Fetch u \<notin> set ys \<and> Persisted u \<notin> set ys"
    unfolding hist_ok_def .
  from inv show "\<forall>u. is_completed (client s0) u \<longrightarrow>
            Fetch u \<notin> set (history ?s) \<and> Persisted u \<notin> set (history ?s)
            \<and> is_completed (client ?s) u"
    by (simp add: crawl_inv_def)
  from inv show "\<forall>u. MarkCompleted u \<in> set (history ?s) \<longrightarrow> is_completed (client ?s) u"
    by (simp add: crawl_inv_def)
next
  assume "is_completed (client s) u"
  thus "processQueue_pass w (s\<lparr>urlQueue := u # rest\<rparr>) = s\<lparr>urlQueue := rest\<rparr>"
    by (simp add: processQueue_pass_def)
next
  assume h: "distinct (map url (client s)) \<and> getPendingUrls (client s) \<noteq> []"
  hence r: "run indexUrl 0 w (new_Scraper s) = (new_Scraper s)\<lparr>urlQueue := getPendingUrls (client s)\<rparr>"
    by (simp add: run_def new_Scraper_def Let_def)
  show "urlQueue (run indexUrl 0 w (new_Scraper s)) = getPendingUrls (client s)"
    unfolding r by simp
  show "\<forall>v \<in> set (urlQueue (run indexUrl 0 w (new_Scraper s))). \<not> is_completed (client s) v"
    unfolding r using h pending_not_completed by simp
  show "client (run indexUrl 0 w (new_Scraper s)) = client s"
    unfolding r by (simp add: new_Scraper_def)
  show "history (run indexUrl 0 w (new_Scraper s)) = history s"
    unfolding r by (simp add: new_Scraper_def)
next
  assume "getPendingUrls (client s) = [] \<and> is_completed (client s) indexUrl"
  hence "scrapeIndex indexUrl w (new_Scraper s) = new_Scraper s"
    by (simp add: scrapeIndex_def new_Scraper_def)
  moreover have "processQueue n w (new_Scraper s) = new_Scraper s"
    by (cases n) (simp_all add: new_Scraper_def)
  ultimately show "run indexUrl n w (new_Scraper s) = new_Scraper s"
    using \<open>getPendingUrls (client s) = [] \<and> is_completed (client s) indexUrl\<close>
    by (simp add: run_def Let_def new_Scraper_def)
qed

theorem completed_only_after_processing_witness:
  "history fresh_Scraper = [] \<and> distinct (map url (client fresh_Scraper))
   \<and> history (sessions ''/'' [1, 5] small_site fresh_Scraper)
       = [Fetch ''/'', Persisted ''/''] @ MarkCompleted ''/''
         # [Fetch ''/engine/'', Persisted ''/engine/'', MarkCompleted ''/engine/'',
            Fetch ''/body/'', MarkFailed ''/body/'',
            Fetch ''/engine/pump/'', Persisted ''/engine/pump/'', MarkCompleted ''/engine/pump/'']
   \<and> last [Fetch ''/'', Persisted ''/''] = Persisted ''/''
   \<and> Fetch ''/''
       \<notin> set [Fetch ''/engine/'', Persisted ''/engine/'', MarkCompleted ''/engine/'',
               Fetch ''/body/'', MarkFailed ''/body/'',
               Fetch ''/engine/pump/'', Persisted ''/engine/pump/'', MarkCompleted ''/engine/pump/'']
   \<and> is_completed (client (sessions ''/'' [1, 5] small_site fresh_Scraper)) ''/''
   \<and> is_completed (client (sessions ''/'' [1] small_site fresh_Scraper)) ''/engine/''
   \<and> processQueue_pass small_site
         ((sessions ''/'' [1] small_site fresh_Scraper)\<lparr>urlQueue := ''/engine/'' # [''/body/'']\<rparr>)
       = (sessions ''/'' [1] small_site fresh_Scraper)\<lparr>urlQueue := [''/body/'']\<rparr>
   \<and> getPendingUrls (client (sessions ''/'' [1] small_site fresh_Scraper))
       = [''/body/'', ''/engine/pump/'']
   \<and> urlQueue (run ''/'' 0 small_site (new_Scraper (sessions ''/'' [1] small_site fresh_Scraper)))
       = [''/body/'', ''/engine/pump/'']"
proof -
  let ?s1 = "sessions ''/'' [1] small_site fresh_Scraper"
  let ?s2 = "sessions ''/'' [1, 5] small_site fresh_Scraper"
  let ?ys = "[Fetch ''/engine/'', Persisted ''/engine/'', MarkCompleted ''/engine/'',
            Fetch ''/body/'', MarkFailed ''/body/'',
            Fetch ''/engine/pump/'', Persisted ''/engine/pump/'', MarkCompleted ''/engine/pump/'']"
  have i: "history fresh_Scraper = [] \<and> distinct (map url (client fresh_Scraper))"
    by code_simp
  have h: "history ?s2 = [Fetch ''/'', Persisted ''/''] @ MarkCompleted ''/'' # ?ys"
    by code_simp
  have c: "is_completed (client ?s1) ''/engine/''" by code_simp
  have p: "getPendingUrls (client ?s1) = [''/body/'', ''/engine/pump/'']" by code_simp
  have d: "distinct (map url (client ?s1)) \<and> getPendingUrls (client ?s1) \<noteq> []" by code_simp
  note inst = completed_only_after_processing[of fresh_Scraper "''/''" "[1, 5]" small_site
      ?s1 "''/engine/''" "[''/body/'']" 0]
  from inst i h have a: "last [Fetch ''/'', Persisted ''/''] = Persisted ''/'' \<and> Fetch ''/'' \<notin> set ?ys"
    by blast
  have "MarkCompleted ''/'' \<in> set (history ?s2)" unfolding h by simp
  with inst i have b: "is_completed (client ?s2) ''/''" by blast
  from inst c have s: "processQueue_pass small_site (?s1\<lparr>urlQueue := ''/engine/'' # [''/body/'']\<rparr>)
       = ?s1\<lparr>urlQueue := [''/body/'']\<rparr>"
    by blast
  from inst d have "urlQueue (run ''/'' 0 small_site (new_Scraper ?s1)) = getPendingUrls (client ?s1)"
    by blast
  hence q: "urlQueue (run ''/'' 0 small_site (new_Scraper ?s1)) = [''/body/'', ''/engine/pump/'']"
    unfolding p .
  from i h a b c s p q show ?thesis by blast
qed

end
